theory Spec2Isabelle
  imports Main "HOL-Library.Word" "HOL-Library.Sublist"
begin

unbundle bit_operations_syntax

section \<open>The socket interface seen by ccan/net\<close>

text \<open>
  \<^verbatim>\<open>net.c\<close> is a sequence of system calls on descriptors. The kernel is a parameter of
  the model: a record of answer functions, one per system call, each taking the number of
  system calls made so far (so the same call may be answered differently later) and the
  arguments of the call. The program's side of the interface is the ambient \<^verbatim>\<open>errno\<close>
  and the log of the calls made, in order, each with its answer.
\<close>

subsection \<open>Constants of the system headers\<close>

text \<open>
  The values are those of the Linux headers. The proofs use only that \<open>AF_INET\<close> and
  \<open>AF_INET6\<close> differ.
\<close>

definition AF_INET :: int where "AF_INET = 2"
definition AF_INET6 :: int where "AF_INET6 = 10"
definition SOCK_STREAM :: int where "SOCK_STREAM = 1"
definition SOCK_SEQPACKET :: int where "SOCK_SEQPACKET = 5"
definition EINPROGRESS :: int where "EINPROGRESS = 115"
definition POLLOUT :: int where "POLLOUT = 4"
definition O_NONBLOCK :: int where "O_NONBLOCK = 2048"
definition sizeof_sockaddr_in :: nat where "sizeof_sockaddr_in = 16"
definition sizeof_sockaddr_in6 :: nat where "sizeof_sockaddr_in6 = 28"

text \<open>\<^verbatim>\<open>#define MAX_PROTOS 2\<close>: the capacity of the arrays \<^verbatim>\<open>pfd\<close>, \<^verbatim>\<open>addr\<close>, \<^verbatim>\<open>slen\<close>.\<close>

definition MAX_PROTOS :: nat where "MAX_PROTOS = 2"

subsection \<open>Data\<close>

type_synonym sockaddr = "nat list"

text \<open>
  One node of the resolver's list. The link \<^verbatim>\<open>ai_next\<close> is the tail of the HOL list that
  holds the node; \<^verbatim>\<open>NULL\<close> is the empty list.
\<close>

record addrinfo =
  ai_family :: int
  ai_socktype :: int
  ai_protocol :: int
  ai_addrlen :: nat
  ai_addr :: sockaddr

record pollfd =
  fd :: int
  events :: int
  revents :: int

text \<open>
  The answer of a system call: \<open>Ok v\<close> returns \<open>v\<close> and leaves \<^verbatim>\<open>errno\<close> alone,
  \<open>Err e\<close> returns \<open>-1\<close> and stores \<open>e\<close> in \<^verbatim>\<open>errno\<close>.
\<close>

datatype sysres = Ok int | Err int

fun retval :: "sysres \<Rightarrow> int" where
  "retval (Ok v) = v"
| "retval (Err e) = -1"

text \<open>
  \<^verbatim>\<open>poll\<close> either fails or returns after storing one \<^verbatim>\<open>revents\<close> value per polled
  entry. \<^verbatim>\<open>getsockopt(SO_ERROR)\<close> either fails or returns 0 after storing the pending
  error of the socket in \<^verbatim>\<open>err\<close>.
\<close>

datatype pollres = PollOk "int list" | PollErr int

datatype gsores = Gso int | GsoErr int

datatype event =
    EvSocket int int int sysres
  | EvGetfl int sysres
  | EvSetfl int int sysres
  | EvConnect int sockaddr nat sysres
  | EvPoll "pollfd list" pollres
  | EvGetsockopt int gsores
  | EvClose int sysres
  | EvSetsockopt int sysres
  | EvBind int sockaddr nat sysres
  | EvListen int int sysres

record os =
  sys_socket :: "nat \<Rightarrow> int \<Rightarrow> int \<Rightarrow> int \<Rightarrow> sysres"
  sys_getfl :: "nat \<Rightarrow> int \<Rightarrow> sysres"
  sys_setfl :: "nat \<Rightarrow> int \<Rightarrow> int \<Rightarrow> sysres"
  sys_connect :: "nat \<Rightarrow> int \<Rightarrow> sockaddr \<Rightarrow> nat \<Rightarrow> sysres"
  sys_poll :: "nat \<Rightarrow> pollfd list \<Rightarrow> pollres"
  sys_getsockopt :: "nat \<Rightarrow> int \<Rightarrow> gsores"
  sys_close :: "nat \<Rightarrow> int \<Rightarrow> sysres"
  sys_setsockopt :: "nat \<Rightarrow> int \<Rightarrow> sysres"
  sys_bind :: "nat \<Rightarrow> int \<Rightarrow> sockaddr \<Rightarrow> nat \<Rightarrow> sysres"
  sys_listen :: "nat \<Rightarrow> int \<Rightarrow> int \<Rightarrow> sysres"

record world =
  errno :: int
  trace :: "event list"

definition now :: "'a world_scheme \<Rightarrow> nat" where
  "now w = length (trace w)"

definition logev :: "event \<Rightarrow> 'a world_scheme \<Rightarrow> 'a world_scheme" where
  "logev ev w = w\<lparr>trace := trace w @ [ev]\<rparr>"

definition seterr :: "sysres \<Rightarrow> 'a world_scheme \<Rightarrow> 'a world_scheme" where
  "seterr r w = (case r of Ok v \<Rightarrow> w | Err e \<Rightarrow> w\<lparr>errno := e\<rparr>)"

section \<open>set_nonblock\<close>

text \<open>
  \<^verbatim>\<open>flags = fcntl(fd, F_GETFL); if (flags == -1) return false;\<close> then the flag is set or
  cleared and the result is \<^verbatim>\<open>fcntl(fd, F_SETFL, flags) == 0\<close>.
\<close>

definition set_nonblock ::
  "os \<Rightarrow> int \<Rightarrow> bool \<Rightarrow> 'a world_scheme \<Rightarrow> bool \<times> 'a world_scheme" where
  "set_nonblock k d nonblock w =
     (let r = sys_getfl k (now w) d;
          w1 = seterr r (logev (EvGetfl d r) w);
          flags = retval r
      in if flags = -1 then (False, w1)
         else
           (let flags' = (if nonblock then flags OR O_NONBLOCK
                          else flags AND NOT O_NONBLOCK);
                r2 = sys_setfl k (now w1) d flags';
                w2 = seterr r2 (logev (EvSetfl d flags' r2) w1)
            in (retval r2 = 0, w2)))"

section \<open>net_connect\<close>

text \<open>
  The locals of \<^verbatim>\<open>net_connect\<close>, on top of the ambient state. \<^verbatim>\<open>num\<close> and \<^verbatim>\<open>i\<close> are
  \<^verbatim>\<open>unsigned int\<close>. An entry of \<^verbatim>\<open>addr\<close> is a pointer: \<open>None\<close> stands for one that was
  never assigned.
\<close>

record conn = world +
  pfd :: "pollfd list"
  addr :: "addrinfo option list"
  slen :: "nat list"
  num :: "32 word"
  idx :: "32 word"
  sockfd :: int

text \<open>
  Where control goes after a piece of the function body: on to the next statement, to the
  label \<^verbatim>\<open>got_one\<close>, to the label \<^verbatim>\<open>out\<close>, or nowhere, because an array was indexed
  at or beyond \<open>MAX_PROTOS\<close> or an unassigned pointer was followed.
\<close>

datatype flow = Through conn | GotOne conn | Out conn | MemFault conn

text \<open>What the call does: it returns a value, or it has left defined behaviour.\<close>

datatype outcome = Returns int | Undefined

text \<open>The first loop: the first node of each family is kept.\<close>

fun scan ::
  "addrinfo list \<Rightarrow> addrinfo option \<Rightarrow> addrinfo option \<Rightarrow> addrinfo option \<times> addrinfo option"
where
  "scan [] ipv4 ipv6 = (ipv4, ipv6)"
| "scan (a # rest) ipv4 ipv6 =
     (if ai_family a = AF_INET
      then scan rest (if ipv4 = None then Some a else ipv4) ipv6
      else if ai_family a = AF_INET6
      then scan rest ipv4 (if ipv6 = None then Some a else ipv6)
      else scan rest ipv4 ipv6)"

text \<open>
  \<^verbatim>\<open>memmove(a + i, a + i + 1, n * sizeof(a[0]))\<close> on an array held as a list: the \<open>n\<close>
  elements from \<open>i + 1\<close> on are copied to \<open>i\<close> on, the rest stays as it was.
\<close>

definition memmove_down :: "'a list \<Rightarrow> nat \<Rightarrow> nat \<Rightarrow> 'a list" where
  "memmove_down a i n = take i a @ take n (drop (i + 1) a) @ drop (i + n) a"

text \<open>
  \<^verbatim>\<open>remove_fd\<close>: the count \<^verbatim>\<open>*num - i - 1\<close> is computed in \<^verbatim>\<open>unsigned int\<close>. It is
  called with \<open>i < *num \<le> MAX_PROTOS\<close> only, where the count is 0 or 1. Nothing is closed.
\<close>

definition remove_fd :: "conn \<Rightarrow> 32 word \<Rightarrow> conn" where
  "remove_fd s i =
     (let n = unat (num s - i - 1)
      in s\<lparr>pfd := memmove_down (pfd s) (unat i) n,
           addr := memmove_down (addr s) (unat i) n,
           slen := memmove_down (slen s) (unat i) n,
           num := num s - 1\<rparr>)"

text \<open>
  Lines 90-105, once per family: the slot \<^verbatim>\<open>num\<close> is filled and kept if \<^verbatim>\<open>socket\<close>
  did not return \<open>-1\<close>. At this point \<^verbatim>\<open>num\<close> is 0 or 1.
\<close>

definition open_slot :: "os \<Rightarrow> int \<Rightarrow> nat \<Rightarrow> addrinfo \<Rightarrow> conn \<Rightarrow> conn" where
  "open_slot k fam sz a s =
     (let n = unat (num s);
          r = sys_socket k (now s) fam (ai_socktype a) (ai_protocol a);
          s1 = seterr r (logev (EvSocket fam (ai_socktype a) (ai_protocol a) r) s);
          s2 = s1\<lparr>addr := (addr s1)[n := Some a],
                  slen := (slen s1)[n := sz],
                  pfd := (pfd s1)[n := (pfd s1 ! n)\<lparr>fd := retval r\<rparr>]\<rparr>
      in if retval r \<noteq> -1 then s2\<lparr>num := num s2 + 1\<rparr> else s2)"

text \<open>
  The body of the loop of lines 107-120, entered with \<open>i < num\<close>. \<open>Through\<close> is the end of
  the body (also by \<^verbatim>\<open>continue\<close>), before the \<^verbatim>\<open>i++\<close> of the loop header.
\<close>

definition setup_body :: "os \<Rightarrow> conn \<Rightarrow> flow" where
  "setup_body k s =
     (if MAX_PROTOS \<le> unat (idx s) then MemFault s
      else
        (let d = fd (pfd s ! unat (idx s));
             (ok, s1) = set_nonblock k d True s
         in if \<not> ok then Through ((remove_fd s1 (idx s1))\<lparr>idx := idx s1 - 1\<rparr>)
            else
              (case addr s1 ! unat (idx s1) of
                 None \<Rightarrow> MemFault s1
               | Some a \<Rightarrow>
                   (let r = sys_connect k (now s1) d (ai_addr a) (slen s1 ! unat (idx s1));
                        s2 = seterr r
                               (logev (EvConnect d (ai_addr a) (slen s1 ! unat (idx s1)) r) s1)
                    in if retval r = 0 then GotOne s2
                       else
                         (let s3 = (if errno s2 \<noteq> EINPROGRESS
                                    then (remove_fd s2 (idx s2))\<lparr>idx := idx s2 - 1\<rparr>
                                    else s2);
                              j = unat (idx s3)
                          in if MAX_PROTOS \<le> j then MemFault s3
                             else Through
                                    (s3\<lparr>pfd := (pfd s3)[j := (pfd s3 ! j)\<lparr>events := POLLOUT\<rparr>]\<rparr>))))))"

lemma set_nonblock_locals:
  "set_nonblock k d b s = (ok, s1) \<Longrightarrow>
     num s1 = num s \<and> idx s1 = idx s \<and> pfd s1 = pfd s \<and> addr s1 = addr s \<and>
     slen s1 = slen s \<and> sockfd s1 = sockfd s"
  by (auto simp: set_nonblock_def seterr_def logev_def Let_def split: sysres.splits if_splits)

lemma remove_fd_num [simp]: "num (remove_fd s i) = num s - 1"
  and remove_fd_idx [simp]: "idx (remove_fd s i) = idx s"
  by (simp_all add: remove_fd_def Let_def)

lemma seterr_locals [simp]:
  "num (seterr r s) = num s" "idx (seterr r s) = idx s"
  by (simp_all add: seterr_def split: sysres.splits)

lemma logev_locals [simp]:
  "num (logev e s) = num s" "idx (logev e s) = idx s"
  by (simp_all add: logev_def)

lemma setup_body_Through:
  "setup_body k s = Through s' \<Longrightarrow>
     (num s' = num s \<and> idx s' = idx s) \<or> (num s' = num s - 1 \<and> idx s' = idx s - 1)"
  unfolding setup_body_def Let_def
  by (cases "set_nonblock k (fd (pfd s ! unat (idx s))) True s")
     (auto split: if_splits option.splits dest!: set_nonblock_locals)

lemma loop_measure_step:
  fixes i n i' n' :: "32 word"
  assumes "i < n" and "(n' = n \<and> i' = i) \<or> (n' = n - 1 \<and> i' = i - 1)"
  shows "2 * unat n' - unat (i' + 1) < 2 * unat n - unat i"
  using assms by (elim disjE conjE; simp) unat_arith+

text \<open>
  \<^verbatim>\<open>for (i = 0; i < num; i++)\<close> around the body, from the current \<open>i\<close>. The loop ends
  because each round either moves \<open>i\<close> up or takes an entry away.
\<close>

function setup_loop :: "os \<Rightarrow> conn \<Rightarrow> flow" where
  "setup_loop k s =
     (if idx s < num s
      then (case setup_body k s of
              Through s' \<Rightarrow> setup_loop k (s'\<lparr>idx := idx s' + 1\<rparr>)
            | GotOne s' \<Rightarrow> GotOne s'
            | Out s' \<Rightarrow> Out s'
            | MemFault s' \<Rightarrow> MemFault s')
      else Through s)"
  by pat_completeness auto
termination
  by (relation "measure (\<lambda>(k, s). 2 * unat (num s) - unat (idx s))")
     (auto dest!: setup_body_Through intro: loop_measure_step)

text \<open>
  The body of the inner loop of lines 123-137, entered with \<open>i < num\<close>: an entry without
  \<^verbatim>\<open>revents\<close> is skipped; a failing \<^verbatim>\<open>getsockopt\<close> leaves for \<^verbatim>\<open>out\<close>; a pending
  error of 0 leaves for \<^verbatim>\<open>got_one\<close>; any other is stored in \<^verbatim>\<open>errno\<close> and the entry is
  removed.
\<close>

definition poll_body :: "os \<Rightarrow> conn \<Rightarrow> flow" where
  "poll_body k s =
     (if MAX_PROTOS \<le> unat (idx s) then MemFault s
      else
        (let p = pfd s ! unat (idx s)
         in if revents p = 0 then Through s
            else
              (let r = sys_getsockopt k (now s) (fd p);
                   s1 = logev (EvGetsockopt (fd p) r) s
               in case r of
                    GsoErr e \<Rightarrow> Out (s1\<lparr>errno := e\<rparr>)
                  | Gso err \<Rightarrow>
                      if err = 0 then GotOne s1
                      else Through ((remove_fd (s1\<lparr>errno := err\<rparr>) (idx s1))
                                      \<lparr>idx := idx s1 - 1\<rparr>))))"

lemma poll_body_Through:
  "poll_body k s = Through s' \<Longrightarrow>
     (num s' = num s \<and> idx s' = idx s) \<or> (num s' = num s - 1 \<and> idx s' = idx s - 1)"
  unfolding poll_body_def Let_def
  by (auto split: if_splits gsores.splits)

function poll_for :: "os \<Rightarrow> conn \<Rightarrow> flow" where
  "poll_for k s =
     (if idx s < num s
      then (case poll_body k s of
              Through s' \<Rightarrow> poll_for k (s'\<lparr>idx := idx s' + 1\<rparr>)
            | GotOne s' \<Rightarrow> GotOne s'
            | Out s' \<Rightarrow> Out s'
            | MemFault s' \<Rightarrow> MemFault s')
      else Through s)"
  by pat_completeness auto
termination
  by (relation "measure (\<lambda>(k, s). 2 * unat (num s) - unat (idx s))")
     (auto dest!: poll_body_Through intro: loop_measure_step)

text \<open>
  \<^verbatim>\<open>poll(pfd, num, -1)\<close> is given the first \<open>num\<close> entries and stores a \<^verbatim>\<open>revents\<close> in
  each of them (0 where the answer names none).
\<close>

definition store_revents :: "pollfd list \<Rightarrow> nat \<Rightarrow> int list \<Rightarrow> pollfd list" where
  "store_revents a n revs =
     map (\<lambda>(j, p). if j < n then p\<lparr>revents := (if j < length revs then revs ! j else 0)\<rparr> else p)
         (enumerate 0 a)"

text \<open>
  \<^verbatim>\<open>while (num && poll(pfd, num, -1) != -1)\<close> around the inner loop. \<^verbatim>\<open>poll\<close> may be
  answered for ever with nothing to report, so the loop has fuel: one unit per call of
  \<^verbatim>\<open>poll\<close>, and \<open>None\<close> when a call is due and none is left. \<open>Through\<close> is the exit
  through the loop condition, which is followed by the label \<^verbatim>\<open>got_one\<close>.
\<close>

fun poll_loop :: "os \<Rightarrow> nat \<Rightarrow> conn \<Rightarrow> flow option" where
  "poll_loop k 0 s = (if num s = 0 then Some (Through s) else None)"
| "poll_loop k (Suc fuel) s =
     (if num s = 0 then Some (Through s)
      else
        (let polled = take (unat (num s)) (pfd s);
             r = sys_poll k (now s) polled;
             s1 = logev (EvPoll polled r) s
         in case r of
              PollErr e \<Rightarrow> Some (Through (s1\<lparr>errno := e\<rparr>))
            | PollOk revs \<Rightarrow>
                (case poll_for k (s1\<lparr>pfd := store_revents (pfd s1) (unat (num s1)) revs,
                                      idx := 0\<rparr>) of
                   Through s2 \<Rightarrow> poll_loop k fuel s2
                 | GotOne s2 \<Rightarrow> Some (GotOne s2)
                 | Out s2 \<Rightarrow> Some (Out s2)
                 | MemFault s2 \<Rightarrow> Some (MemFault s2))))"

text \<open>
  The loop of lines 147-149: every entry below \<open>num\<close> whose descriptor is not \<^verbatim>\<open>sockfd\<close>
  is closed. The result of \<^verbatim>\<open>close\<close> is not looked at; a failing \<^verbatim>\<open>close\<close> stores its
  error in \<^verbatim>\<open>errno\<close>.
\<close>

function close_loop :: "os \<Rightarrow> conn \<Rightarrow> flow" where
  "close_loop k s =
     (if idx s < num s
      then (if MAX_PROTOS \<le> unat (idx s) then MemFault s
            else
              (let d = fd (pfd s ! unat (idx s));
                   s1 = (if d \<noteq> sockfd s
                         then (let r = sys_close k (now s) d
                               in seterr r (logev (EvClose d r) s))
                         else s)
               in close_loop k (s1\<lparr>idx := idx s1 + 1\<rparr>)))
      else Through s)"
  by pat_completeness auto
termination
  by (relation "measure (\<lambda>(k, s). unat (num s) - unat (idx s))")
     (auto simp: Let_def, unat_arith+)

text \<open>The label \<^verbatim>\<open>out\<close>: \<^verbatim>\<open>errno\<close> is saved around the closing loop, \<^verbatim>\<open>sockfd\<close> returned.\<close>

definition out_label :: "os \<Rightarrow> conn \<Rightarrow> outcome \<times> conn" where
  "out_label k s =
     (let saved_errno = errno s
      in case close_loop k (s\<lparr>idx := 0\<rparr>) of
           Through s1 \<Rightarrow> (Returns (sockfd s1), s1\<lparr>errno := saved_errno\<rparr>)
         | GotOne s1 \<Rightarrow> (Undefined, s1)
         | Out s1 \<Rightarrow> (Undefined, s1)
         | MemFault s1 \<Rightarrow> (Undefined, s1))"

text \<open>
  The label \<^verbatim>\<open>got_one\<close>: \<^verbatim>\<open>pfd[i]\<close> is read with the \<open>i\<close> that control arrived with,
  its descriptor is made blocking again and becomes \<^verbatim>\<open>sockfd\<close> if that worked; then
  control runs into \<^verbatim>\<open>out\<close>.
\<close>

definition got_one :: "os \<Rightarrow> conn \<Rightarrow> outcome \<times> conn" where
  "got_one k s =
     (if MAX_PROTOS \<le> unat (idx s) then (Undefined, s)
      else
        (let d = fd (pfd s ! unat (idx s));
             (ok, s1) = set_nonblock k d False s
         in out_label k (if ok then s1\<lparr>sockfd := d\<rparr> else s1)))"

text \<open>
  The state at line 88, for a call entered with \<^verbatim>\<open>errno\<close> = \<open>e0\<close>; the log starts with
  the call. The arrays are uninitialised locals: \<open>junk\<close> is whatever the stack holds where
  \<^verbatim>\<open>pfd\<close> is placed; \<^verbatim>\<open>addr\<close> holds no pointer yet.
\<close>

definition nc_init :: "(nat \<Rightarrow> pollfd) \<Rightarrow> int \<Rightarrow> conn" where
  "nc_init junk e0 =
     \<lparr>errno = e0, trace = [],
      pfd = map junk [0..<MAX_PROTOS],
      addr = replicate MAX_PROTOS None,
      slen = replicate MAX_PROTOS 0,
      num = 0, idx = 0, sockfd = -1\<rparr>"

text \<open>Lines 75-120: the scan, a socket for IPv6 and then for IPv4, the connects.\<close>

definition nc_setup :: "os \<Rightarrow> (nat \<Rightarrow> pollfd) \<Rightarrow> int \<Rightarrow> addrinfo list \<Rightarrow> flow" where
  "nc_setup k junk e0 cands =
     (let (ipv4, ipv6) = scan cands None None;
          s0 = nc_init junk e0;
          s1 = (case ipv6 of None \<Rightarrow> s0
                | Some a \<Rightarrow> open_slot k AF_INET6 sizeof_sockaddr_in6 a s0);
          s2 = (case ipv4 of None \<Rightarrow> s1
                | Some a \<Rightarrow> open_slot k AF_INET sizeof_sockaddr_in a s1)
      in setup_loop k (s2\<lparr>idx := 0\<rparr>))"

text \<open>
  The whole function. After the \<^verbatim>\<open>while\<close> loop there is no jump: when the loop ends by
  its condition, control enters \<^verbatim>\<open>got_one\<close> as it does from a \<^verbatim>\<open>goto\<close>.
\<close>

definition net_connect ::
  "os \<Rightarrow> (nat \<Rightarrow> pollfd) \<Rightarrow> int \<Rightarrow> nat \<Rightarrow> addrinfo list \<Rightarrow> (outcome \<times> conn) option" where
  "net_connect k junk e0 fuel cands =
     (case nc_setup k junk e0 cands of
        Through s \<Rightarrow>
          (case poll_loop k fuel s of
             None \<Rightarrow> None
           | Some (Through s') \<Rightarrow> Some (got_one k s')
           | Some (GotOne s') \<Rightarrow> Some (got_one k s')
           | Some (Out s') \<Rightarrow> Some (out_label k s')
           | Some (MemFault s') \<Rightarrow> Some (Undefined, s'))
      | GotOne s \<Rightarrow> Some (got_one k s)
      | Out s \<Rightarrow> Some (out_label k s)
      | MemFault s \<Rightarrow> Some (Undefined, s))"

section \<open>make_listen_fd and net_bind\<close>

definition should_listen :: "addrinfo \<Rightarrow> bool" where
  "should_listen a = (if ai_socktype a = SOCK_SEQPACKET then True
                      else ai_socktype a = SOCK_STREAM)"

text \<open>The label \<^verbatim>\<open>fail\<close> of \<^verbatim>\<open>make_listen_fd\<close>: \<^verbatim>\<open>errno\<close> is saved around \<^verbatim>\<open>close\<close>.\<close>

definition listen_fail :: "os \<Rightarrow> int \<Rightarrow> world \<Rightarrow> int \<times> world" where
  "listen_fail k d w =
     (let saved_errno = errno w;
          r = sys_close k (now w) d;
          w1 = seterr r (logev (EvClose d r) w)
      in (-1, w1\<lparr>errno := saved_errno\<rparr>))"

text \<open>
  \<^verbatim>\<open>make_listen_fd\<close>: the result of \<^verbatim>\<open>setsockopt\<close> is not looked at; \<^verbatim>\<open>bind\<close> and,
  for a stream or sequenced-packet socket, \<^verbatim>\<open>listen(fd, 5)\<close> must return 0.
\<close>

definition make_listen_fd :: "os \<Rightarrow> addrinfo \<Rightarrow> world \<Rightarrow> int \<times> world" where
  "make_listen_fd k a w =
     (let r = sys_socket k (now w) (ai_family a) (ai_socktype a) (ai_protocol a);
          w1 = seterr r (logev (EvSocket (ai_family a) (ai_socktype a) (ai_protocol a) r) w);
          d = retval r
      in if d < 0 then (-1, w1)
         else
           (let r2 = sys_setsockopt k (now w1) d;
                w2 = seterr r2 (logev (EvSetsockopt d r2) w1);
                r3 = sys_bind k (now w2) d (ai_addr a) (ai_addrlen a);
                w3 = seterr r3 (logev (EvBind d (ai_addr a) (ai_addrlen a) r3) w2)
            in if retval r3 \<noteq> 0 then listen_fail k d w3
               else if should_listen a
               then (let r4 = sys_listen k (now w3) d 5;
                         w4 = seterr r4 (logev (EvListen d 5 r4) w3)
                     in if retval r4 \<noteq> 0 then listen_fail k d w4 else (d, w4))
               else (d, w3)))"

text \<open>
  Lines 211-221 of \<^verbatim>\<open>net_bind\<close>: the families of the first node and, if there is one, of
  the second decide the two slots. The first node is read without a test, so the caller
  must pass a list that is not empty.
\<close>

definition classify :: "addrinfo list \<Rightarrow> (addrinfo option \<times> addrinfo option) option" where
  "classify cands =
     (case cands of
        [] \<Rightarrow> None
      | a # rest \<Rightarrow>
          (let ipv4 = (if ai_family a = AF_INET then Some a else None);
               ipv6 = (if ai_family a = AF_INET then None
                       else if ai_family a = AF_INET6 then Some a else None)
           in case rest of
                [] \<Rightarrow> Some (ipv4, ipv6)
              | b # rest' \<Rightarrow>
                  if ai_family b = AF_INET then Some (Some b, ipv6)
                  else if ai_family b = AF_INET6 then Some (ipv4, Some b)
                  else Some (ipv4, ipv6)))"

text \<open>
  \<^verbatim>\<open>if ((fds[num] = make_listen_fd(slot)) >= 0) num++;\<close> for a slot that is set. \<open>fds\<close>
  is the caller's array; a store beyond it is \<open>None\<close>.
\<close>

definition bind_slot ::
  "os \<Rightarrow> addrinfo option \<Rightarrow> int list \<times> nat \<times> world \<Rightarrow> (int list \<times> nat \<times> world) option" where
  "bind_slot k slot st =
     (case st of (fds, n, w) \<Rightarrow>
        (case slot of
           None \<Rightarrow> Some (fds, n, w)
         | Some a \<Rightarrow>
             (let (d, w1) = make_listen_fd k a w
              in if length fds \<le> n then None
                 else Some (fds[n := d], (if 0 \<le> d then n + 1 else n), w1))))"

text \<open>
  \<^verbatim>\<open>net_bind\<close>: IPv6 first, then IPv4; \<open>-1\<close> if no descriptor was made, else their
  number. The result carries the caller's array and the ambient state as the call left
  them.
\<close>

definition net_bind :: "os \<Rightarrow> addrinfo list \<Rightarrow> int list \<Rightarrow> world \<Rightarrow> outcome \<times> int list \<times> world" where
  "net_bind k cands fds w =
     (case classify cands of
        None \<Rightarrow> (Undefined, fds, w)
      | Some (ipv4, ipv6) \<Rightarrow>
          (case bind_slot k ipv6 (fds, 0, w) of
             None \<Rightarrow> (Undefined, fds, w)
           | Some st6 \<Rightarrow>
               (case bind_slot k ipv4 st6 of
                  None \<Rightarrow> (Undefined, fst st6, snd (snd st6))
                | Some (fds', n, w') \<Rightarrow>
                    (Returns (if n = 0 then -1 else int n), fds', w'))))"

text \<open>
  One family's turn in \<^verbatim>\<open>net_bind\<close>, seen from outside: the factory is called for a
  slot that is set; a slot that is not set produces no descriptor and no call.
\<close>

definition attempt :: "os \<Rightarrow> addrinfo option \<Rightarrow> world \<Rightarrow> int \<times> world" where
  "attempt k slot w = (case slot of None \<Rightarrow> (- 1, w) | Some a \<Rightarrow> make_listen_fd k a w)"

text \<open>What the caller sees of a call: the value returned, \<^verbatim>\<open>errno\<close>, and the calls made.\<close>

fun observed :: "(outcome \<times> conn) option \<Rightarrow> (outcome \<times> int \<times> event list) option" where
  "observed None = None"
| "observed (Some (r, s)) = Some (r, errno s, trace s)"

text \<open>The index and the number of live entries that a call ended with.\<close>

fun ended_at :: "(outcome \<times> conn) option \<Rightarrow> (nat \<times> nat) option" where
  "ended_at None = None"
| "ended_at (Some (r, s)) = Some (unat (idx s), unat (num s))"

section \<open>Concrete runs\<close>

text \<open>
  A kernel that hands out descriptor 3 for an IPv6 socket and 4 for an IPv4 socket, on
  which every call succeeds, except that a non-blocking \<^verbatim>\<open>connect\<close> stays in progress
  (\<open>EINPROGRESS\<close>, 115) and \<^verbatim>\<open>fcntl\<close> on anything but 3 and 4 fails with \<open>EBADF\<close> (9).
\<close>

definition quiet_os :: os where
  "quiet_os =
     \<lparr>sys_socket = (\<lambda>t fam ty pr. if fam = AF_INET6 then Ok 3 else Ok 4),
      sys_getfl = (\<lambda>t d. if d = 3 \<or> d = 4 then Ok 2 else Err 9),
      sys_setfl = (\<lambda>t d fl. Ok 0),
      sys_connect = (\<lambda>t d a l. Err 115),
      sys_poll = (\<lambda>t fds. PollOk []),
      sys_getsockopt = (\<lambda>t d. Gso 0),
      sys_close = (\<lambda>t d. Ok 0),
      sys_setsockopt = (\<lambda>t d. Ok 0),
      sys_bind = (\<lambda>t d a l. Ok 0),
      sys_listen = (\<lambda>t d b. Ok 0)\<rparr>"

definition cand4 :: addrinfo where
  "cand4 = \<lparr>ai_family = AF_INET, ai_socktype = SOCK_STREAM, ai_protocol = 6,
            ai_addrlen = 16, ai_addr = [127, 0, 0, 1]\<rparr>"

definition cand6 :: addrinfo where
  "cand6 = \<lparr>ai_family = AF_INET6, ai_socktype = SOCK_STREAM, ai_protocol = 6,
            ai_addrlen = 28, ai_addr = [0, 0, 0, 1]\<rparr>"

text \<open>Stack contents that are no descriptor, and stack contents that are all zero.\<close>

definition junk_bad :: "nat \<Rightarrow> pollfd" where
  "junk_bad j = \<lparr>fd = -7, events = 0, revents = 0\<rparr>"

definition junk_zero :: "nat \<Rightarrow> pollfd" where
  "junk_zero j = \<lparr>fd = 0, events = 0, revents = 0\<rparr>"

text \<open>
  The IPv6 peer refuses (\<open>ECONNREFUSED\<close>, 111, reported by the first \<^verbatim>\<open>poll\<close>, which is
  the 9th call), the IPv4 peer accepts (reported by the second \<^verbatim>\<open>poll\<close>).
\<close>

definition refused6_os :: os where
  "refused6_os =
     quiet_os\<lparr>sys_poll := (\<lambda>t fds. if t = 8 then PollOk [8, 0] else PollOk [4]),
              sys_getsockopt := (\<lambda>t d. if d = 3 then Gso 111 else Gso 0)\<rparr>"

text \<open>The same, but the second \<^verbatim>\<open>poll\<close> is interrupted by a signal (\<open>EINTR\<close>, 4).\<close>

definition eintr_os :: os where
  "eintr_os =
     quiet_os\<lparr>sys_poll := (\<lambda>t fds. if t = 8 then PollOk [8, 0] else PollErr 4),
              sys_getsockopt := (\<lambda>t d. if d = 3 then Gso 111 else Gso 0)\<rparr>"

text \<open>A peer that refuses at once: \<^verbatim>\<open>connect\<close> itself fails with \<open>ECONNREFUSED\<close>.\<close>

definition refusing_os :: os where
  "refusing_os = quiet_os\<lparr>sys_connect := (\<lambda>t d a l. Err 111)\<rparr>"

text \<open>Descriptor 0 is open (standard input), so \<^verbatim>\<open>fcntl\<close> on it succeeds.\<close>

definition stdin_os :: os where
  "stdin_os = quiet_os\<lparr>sys_getfl := (\<lambda>t d. if d = 0 \<or> d = 3 \<or> d = 4 then Ok 2 else Err 9)\<rparr>"

text \<open>The ambient state before a call: \<^verbatim>\<open>errno\<close> is 0 and nothing has been called.\<close>

definition world0 :: world where
  "world0 = \<lparr>errno = 0, trace = []\<rparr>"

text \<open>\<^verbatim>\<open>setsockopt\<close> fails with \<open>ENOPROTOOPT\<close> (92); everything else succeeds.\<close>

definition no_reuse_os :: os where
  "no_reuse_os = quiet_os\<lparr>sys_setsockopt := (\<lambda>t d. Err 92)\<rparr>"

text \<open>
  The port is taken: \<^verbatim>\<open>bind\<close> fails with \<open>EADDRINUSE\<close> (98). \<^verbatim>\<open>close\<close> fails too, with
  \<open>EIO\<close> (5), so that the saving of \<^verbatim>\<open>errno\<close> shows.
\<close>

definition bind_busy_os :: os where
  "bind_busy_os = quiet_os\<lparr>sys_bind := (\<lambda>t d a l. Err 98), sys_close := (\<lambda>t d. Err 5)\<rparr>"

text \<open>
  A dual-stack host: the IPv6 listener has taken the port for IPv4 as well, so \<^verbatim>\<open>bind\<close>
  on the IPv4 socket 4 fails with \<open>EADDRINUSE\<close>.
\<close>

definition dual_stack_os :: os where
  "dual_stack_os = quiet_os\<lparr>sys_bind := (\<lambda>t d a l. if d = 4 then Err 98 else Ok 0)\<rparr>"

text \<open>Every \<^verbatim>\<open>connect\<close> succeeds at once.\<close>

definition sync_os :: os where
  "sync_os = quiet_os\<lparr>sys_connect := (\<lambda>t d a l. Ok 0)\<rparr>"

text \<open>
  Every \<^verbatim>\<open>connect\<close> succeeds at once, but the sixth call, which is the \<^verbatim>\<open>F_SETFL\<close> that
  is to make the winner blocking again, fails with \<open>EPERM\<close> (1).
\<close>

definition sync_stuck_os :: os where
  "sync_stuck_os = quiet_os\<lparr>sys_connect := (\<lambda>t d a l. Ok 0),
                            sys_setfl := (\<lambda>t d fl. if t = 5 then Err 1 else Ok 0)\<rparr>"

text \<open>
  The connect is in progress, \<^verbatim>\<open>poll\<close> reports the socket and its pending error is 0,
  but the eighth call, the \<^verbatim>\<open>F_SETFL\<close> for the winner, fails with \<open>EPERM\<close>.
\<close>

definition late_stuck_os :: os where
  "late_stuck_os = quiet_os\<lparr>sys_poll := (\<lambda>t fds. PollOk [4]),
                            sys_setfl := (\<lambda>t d fl. if t = 7 then Err 1 else Ok 0)\<rparr>"

text \<open>A second IPv4 candidate.\<close>

definition cand4b :: addrinfo where
  "cand4b = \<lparr>ai_family = AF_INET, ai_socktype = SOCK_STREAM, ai_protocol = 6,
             ai_addrlen = 16, ai_addr = [10, 0, 0, 1]\<rparr>"

text \<open>
  The state in which \<^verbatim>\<open>net_connect\<close> returns when both sockets were created and the
  first \<^verbatim>\<open>connect\<close>, for IPv6, succeeded at once.
\<close>

definition sync_final :: conn where
  "sync_final =
     \<lparr>errno = 0,
      trace = [EvSocket 10 1 6 (Ok 3), EvSocket 2 1 6 (Ok 4),
               EvGetfl 3 (Ok 2), EvSetfl 3 2050 (Ok 0), EvConnect 3 [0, 0, 0, 1] 28 (Ok 0),
               EvGetfl 3 (Ok 2), EvSetfl 3 2 (Ok 0), EvClose 4 (Ok 0)],
      pfd = [\<lparr>fd = 3, events = 0, revents = 0\<rparr>, \<lparr>fd = 4, events = 0, revents = 0\<rparr>],
      addr = [Some cand6, Some cand4], slen = [28, 16], num = 2, idx = 2, sockfd = 3\<rparr>"

text \<open>
  The state in which \<^verbatim>\<open>net_connect\<close> returns under \<open>sync_stuck_os\<close> with one IPv4
  candidate: the socket connected at once, could not be made blocking, and was closed.
\<close>

definition stuck_final :: conn where
  "stuck_final =
     \<lparr>errno = 1,
      trace = [EvSocket 2 1 6 (Ok 4), EvGetfl 4 (Ok 2), EvSetfl 4 2050 (Ok 0),
               EvConnect 4 [127, 0, 0, 1] 16 (Ok 0),
               EvGetfl 4 (Ok 2), EvSetfl 4 2 (Err 1), EvClose 4 (Ok 0)],
      pfd = [\<lparr>fd = 4, events = 0, revents = 0\<rparr>, \<lparr>fd = - 7, events = 0, revents = 0\<rparr>],
      addr = [Some cand4, None], slen = [16, 0], num = 1, idx = 1, sockfd = - 1\<rparr>"

text \<open>
  The state in which the jump to \<^verbatim>\<open>got_one\<close> is taken under \<open>late_stuck_os\<close> with one
  IPv4 candidate.
\<close>

definition late_won :: conn where
  "late_won =
     \<lparr>errno = 115,
      trace = [EvSocket 2 1 6 (Ok 4), EvGetfl 4 (Ok 2), EvSetfl 4 2050 (Ok 0),
               EvConnect 4 [127, 0, 0, 1] 16 (Err 115),
               EvPoll [\<lparr>fd = 4, events = 4, revents = 0\<rparr>] (PollOk [4]),
               EvGetsockopt 4 (Gso 0)],
      pfd = [\<lparr>fd = 4, events = 4, revents = 4\<rparr>, \<lparr>fd = - 7, events = 0, revents = 0\<rparr>],
      addr = [Some cand4, None], slen = [16, 0], num = 1, idx = 0, sockfd = - 1\<rparr>"

section \<open>Evaluating the model\<close>

text \<open>
  The loops are unfolded one round at a time, by substitution, never by the simplifier on
  its own.
\<close>

declare setup_loop.simps [simp del] poll_for.simps [simp del] close_loop.simps [simp del]

lemmas loop_simps = setup_loop.simps poll_for.simps close_loop.simps

lemmas consts_defs = AF_INET_def AF_INET6_def SOCK_STREAM_def SOCK_SEQPACKET_def EINPROGRESS_def
  POLLOUT_def O_NONBLOCK_def sizeof_sockaddr_in_def sizeof_sockaddr_in6_def MAX_PROTOS_def

lemmas run_defs = net_connect_def nc_setup_def nc_init_def open_slot_def setup_body_def
  poll_body_def store_revents_def got_one_def out_label_def set_nonblock_def remove_fd_def
  memmove_down_def logev_def seterr_def now_def Let_def

lemma unat_max32: "unat (- 1 :: 32 word) = 4294967295"
  by (simp add: unsigned_minus_1_eq_mask mask_eq_exp_minus_1)

lemma poll_loop_numeral:
  "poll_loop k (numeral n) s =
     (if num s = 0 then Some (Through s)
      else
        (let polled = take (unat (num s)) (pfd s);
             r = sys_poll k (now s) polled;
             s1 = logev (EvPoll polled r) s
         in case r of
              PollErr e \<Rightarrow> Some (Through (s1\<lparr>errno := e\<rparr>))
            | PollOk revs \<Rightarrow>
                (case poll_for k (s1\<lparr>pfd := store_revents (pfd s1) (unat (num s1)) revs,
                                      idx := 0\<rparr>) of
                   Through s2 \<Rightarrow> poll_loop k (pred_numeral n) s2
                 | GotOne s2 \<Rightarrow> Some (GotOne s2)
                 | Out s2 \<Rightarrow> Some (Out s2)
                 | MemFault s2 \<Rightarrow> Some (MemFault s2))))"
  using poll_loop.simps(2) [of k "pred_numeral n" s] by (simp only: numeral_eq_Suc)

lemma upt_0_2: "[0..<2] = [0, Suc 0]"
  by (simp add: upt_rec)

lemma replicate_2: "replicate 2 x = [x, x]"
  by (simp add: numeral_2_eq_2)

lemmas listen_defs = make_listen_fd_def listen_fail_def should_listen_def logev_def seterr_def
  now_def Let_def

lemmas bind_defs = net_bind_def classify_def bind_slot_def listen_defs

lemmas eval_simps = poll_loop_numeral run_defs consts_defs unat_max32 upt_0_2 replicate_2
  quiet_os_def cand4_def cand6_def cand4b_def junk_bad_def junk_zero_def

section \<open>Descriptors that are dropped\<close>

text \<open>
  Claim C1: every socket that \<^verbatim>\<open>net_connect\<close> created and that is not the returned
  winner is closed before the call returns; one that is dropped on the way is closed when
  it is dropped.

  The code does not do that: \<^verbatim>\<open>remove_fd\<close> only moves array entries, and the closing
  loop at \<^verbatim>\<open>out\<close> sees the entries that are left. In the run below the IPv6 socket 3 is
  refused and dropped, the IPv4 socket 4 wins and is returned, and no \<^verbatim>\<open>close\<close> is ever
  called: descriptor 3 stays open.
\<close>

theorem C1_dropped_descriptor_is_not_closed:
  "observed (net_connect refused6_os junk_bad 0 5 [cand6, cand4]) =
     Some (Returns 4, 111,
       [EvSocket 10 1 6 (Ok 3), EvSocket 2 1 6 (Ok 4),
        EvGetfl 3 (Ok 2), EvSetfl 3 2050 (Ok 0), EvConnect 3 [0, 0, 0, 1] 28 (Err 115),
        EvGetfl 4 (Ok 2), EvSetfl 4 2050 (Ok 0), EvConnect 4 [127, 0, 0, 1] 16 (Err 115),
        EvPoll [\<lparr>fd = 3, events = 4, revents = 0\<rparr>, \<lparr>fd = 4, events = 4, revents = 0\<rparr>]
               (PollOk [8, 0]),
        EvGetsockopt 3 (Gso 111),
        EvPoll [\<lparr>fd = 4, events = 4, revents = 0\<rparr>] (PollOk [4]),
        EvGetsockopt 4 (Gso 0),
        EvGetfl 4 (Ok 2), EvSetfl 4 2 (Ok 0)])"
  apply (simp add: eval_simps refused6_os_def)
  apply (subst loop_simps, simp add: eval_simps refused6_os_def)+
  done

section \<open>A failing poll\<close>

text \<open>
  Claim C2: if \<^verbatim>\<open>poll\<close> itself fails while candidates are pending, \<^verbatim>\<open>net_connect\<close>
  closes all pending descriptors and returns \<open>-1\<close>, never a descriptor.

  The code leaves the \<^verbatim>\<open>while\<close> loop and runs into the label \<^verbatim>\<open>got_one\<close> with
  \<open>i = num\<close>. In the run below the IPv6 socket was refused and removed, which left a copy
  of the IPv4 entry in \<^verbatim>\<open>pfd[1]\<close>; the second \<^verbatim>\<open>poll\<close> fails with \<open>EINTR\<close>; the
  pending socket 4 is made blocking and returned, and nothing is closed.
\<close>

theorem C2_failing_poll_returns_pending_descriptor:
  "observed (net_connect eintr_os junk_bad 0 5 [cand6, cand4]) =
     Some (Returns 4, 4,
       [EvSocket 10 1 6 (Ok 3), EvSocket 2 1 6 (Ok 4),
        EvGetfl 3 (Ok 2), EvSetfl 3 2050 (Ok 0), EvConnect 3 [0, 0, 0, 1] 28 (Err 115),
        EvGetfl 4 (Ok 2), EvSetfl 4 2050 (Ok 0), EvConnect 4 [127, 0, 0, 1] 16 (Err 115),
        EvPoll [\<lparr>fd = 3, events = 4, revents = 0\<rparr>, \<lparr>fd = 4, events = 4, revents = 0\<rparr>]
               (PollOk [8, 0]),
        EvGetsockopt 3 (Gso 111),
        EvPoll [\<lparr>fd = 4, events = 4, revents = 0\<rparr>] (PollErr 4),
        EvGetfl 4 (Ok 2), EvSetfl 4 2 (Ok 0)])"
  apply (simp add: eval_simps eintr_os_def)
  apply (subst loop_simps, simp add: eval_simps eintr_os_def)+
  done

section \<open>The index after a removal\<close>

text \<open>
  Claim C3: in the loop of lines 107-120 every access to \<^verbatim>\<open>pfd\<close>, \<^verbatim>\<open>addr\<close> and
  \<^verbatim>\<open>slen\<close> uses an index below the number of live entries; in particular the store to
  \<^verbatim>\<open>pfd[i].events\<close> after a candidate was dropped for a connect error is in bounds, also
  when the candidate was at index 0.

  The code has no \<^verbatim>\<open>continue\<close> after that removal. With a single candidate whose
  \<^verbatim>\<open>connect\<close> is refused at once, \<open>i--\<close> wraps from 0 to \<open>2\<^sup>3\<^sup>2 - 1\<close> and the store
  goes to \<^verbatim>\<open>pfd[4294967295]\<close>, with no live entry left.
\<close>

theorem C3_events_store_out_of_bounds:
  "observed (net_connect refusing_os junk_bad 0 5 [cand4]) =
     Some (Undefined, 111,
       [EvSocket 2 1 6 (Ok 4), EvGetfl 4 (Ok 2), EvSetfl 4 2050 (Ok 0),
        EvConnect 4 [127, 0, 0, 1] 16 (Err 111)])
   \<and> ended_at (net_connect refusing_os junk_bad 0 5 [cand4]) = Some (4294967295, 0)"
  apply (simp add: eval_simps refusing_os_def)
  apply (subst loop_simps, simp add: eval_simps refusing_os_def)+
  done

section \<open>No candidate\<close>

text \<open>
  Claim C4: for the empty candidate sequence \<^verbatim>\<open>net_connect\<close> fails at once, returning
  \<open>-1\<close>, without creating a socket.

  No socket is created, but the code runs into \<^verbatim>\<open>got_one\<close> and reads \<^verbatim>\<open>pfd[0].fd\<close>,
  which was never assigned. Where the stack holds 0 there and descriptor 0 is open, the
  call makes descriptor 0 blocking and returns it.
\<close>

theorem C4_empty_sequence_returns_stack_content:
  "observed (net_connect stdin_os junk_zero 0 5 []) =
     Some (Returns 0, 0, [EvGetfl 0 (Ok 2), EvSetfl 0 2 (Ok 0)])"
  apply (simp add: eval_simps stdin_os_def)
  apply (subst loop_simps, simp add: eval_simps stdin_os_def)+
  done

section \<open>The listen socket factory\<close>

text \<open>
  Claim C5, as stated: in \<^verbatim>\<open>make_listen_fd\<close> every step that fails after the socket was
  created, the address-reuse option included, closes the socket and makes the call fail,
  with the \<^verbatim>\<open>errno\<close> of that step.

  That is not so for the address-reuse option: the result of \<^verbatim>\<open>setsockopt\<close> is not
  tested. Below \<^verbatim>\<open>setsockopt\<close> fails, and the call returns the descriptor 4, bound and
  listening, without a \<^verbatim>\<open>close\<close>.
\<close>

theorem C5_setsockopt_failure_is_ignored:
  "make_listen_fd no_reuse_os cand4 world0 =
     (4, \<lparr>errno = 92,
          trace = [EvSocket 2 1 6 (Ok 4), EvSetsockopt 4 (Err 92),
                   EvBind 4 [127, 0, 0, 1] 16 (Ok 0), EvListen 4 5 (Ok 0)]\<rparr>)"
  by (simp add: listen_defs no_reuse_os_def quiet_os_def cand4_def world0_def consts_defs)

text \<open>
  Claim C5, amended: once \<^verbatim>\<open>socket\<close> has returned a descriptor \<open>d \<ge> 0\<close>, a failure of
  \<^verbatim>\<open>bind\<close>, or of \<^verbatim>\<open>listen\<close> on a socket that is to listen, with error \<open>e\<close> makes the
  call return \<open>-1\<close> with \<^verbatim>\<open>errno = e\<close>, whatever \<^verbatim>\<open>close\<close> does to \<^verbatim>\<open>errno\<close>, and the
  last call made is \<^verbatim>\<open>close(d)\<close>. If \<^verbatim>\<open>bind\<close> and (where due) \<^verbatim>\<open>listen\<close> return 0, the
  call returns \<open>d\<close> and does not close it, whatever \<^verbatim>\<open>setsockopt\<close> returned. (\<^verbatim>\<open>bind\<close> is
  the third call of the factory, \<^verbatim>\<open>listen\<close> the fourth.)
\<close>

theorem C5_bind_or_listen_failure_closes:
  assumes "sys_socket k (now w) (ai_family a) (ai_socktype a) (ai_protocol a) = Ok d"
    and "0 \<le> d"
  shows "(sys_bind k (Suc (Suc (now w))) d (ai_addr a) (ai_addrlen a) = Err e \<or>
          sys_bind k (Suc (Suc (now w))) d (ai_addr a) (ai_addrlen a) = Ok 0 \<and>
            should_listen a \<and> sys_listen k (Suc (Suc (Suc (now w)))) d 5 = Err e
          \<longrightarrow> fst (make_listen_fd k a w) = - 1
              \<and> errno (snd (make_listen_fd k a w)) = e
              \<and> (\<exists>r. last (trace (snd (make_listen_fd k a w))) = EvClose d r))
       \<and> (sys_bind k (Suc (Suc (now w))) d (ai_addr a) (ai_addrlen a) = Ok 0 \<and>
            (should_listen a \<longrightarrow> sys_listen k (Suc (Suc (Suc (now w)))) d 5 = Ok 0)
          \<longrightarrow> fst (make_listen_fd k a w) = d
              \<and> (\<forall>r. EvClose d r \<notin> set (drop (now w) (trace (snd (make_listen_fd k a w))))))"
  using assms
  by (auto simp: make_listen_fd_def listen_fail_def logev_def seterr_def now_def Let_def
           split: sysres.splits)

theorem C5_bind_or_listen_failure_closes_witness:
  "fst (make_listen_fd bind_busy_os cand4 world0) = - 1
   \<and> errno (snd (make_listen_fd bind_busy_os cand4 world0)) = 98
   \<and> last (trace (snd (make_listen_fd bind_busy_os cand4 world0))) = EvClose 4 (Err 5)
   \<and> fst (make_listen_fd no_reuse_os cand4 world0) = 4"
proof -
  have s1: "sys_socket bind_busy_os (now world0) (ai_family cand4) (ai_socktype cand4)
              (ai_protocol cand4) = Ok 4"
    by (simp add: bind_busy_os_def quiet_os_def cand4_def consts_defs)
  have s2: "sys_socket no_reuse_os (now world0) (ai_family cand4) (ai_socktype cand4)
              (ai_protocol cand4) = Ok 4"
    by (simp add: no_reuse_os_def quiet_os_def cand4_def consts_defs)
  have pos: "(0::int) \<le> 4" by simp
  have tr: "trace (snd (make_listen_fd bind_busy_os cand4 world0)) =
              [EvSocket 2 1 6 (Ok 4), EvSetsockopt 4 (Ok 0),
               EvBind 4 [127, 0, 0, 1] 16 (Err 98), EvClose 4 (Err 5)]"
    by (simp add: listen_defs bind_busy_os_def quiet_os_def cand4_def world0_def consts_defs)
  from C5_bind_or_listen_failure_closes [OF s1 pos, where e = 98]
  have "fst (make_listen_fd bind_busy_os cand4 world0) = - 1
        \<and> errno (snd (make_listen_fd bind_busy_os cand4 world0)) = 98"
    by (simp add: bind_busy_os_def quiet_os_def cand4_def)
  moreover from C5_bind_or_listen_failure_closes [OF s2 pos, where e = 0]
  have "fst (make_listen_fd no_reuse_os cand4 world0) = 4"
    by (simp add: no_reuse_os_def quiet_os_def cand4_def should_listen_def consts_defs)
  ultimately show ?thesis by (simp add: tr)
qed

section \<open>The dual-stack binder\<close>

lemma make_listen_fd_result:
  "fst (make_listen_fd k a w) = - 1 \<or> 0 \<le> fst (make_listen_fd k a w)"
  by (auto simp: make_listen_fd_def listen_fail_def Let_def)

text \<open>
  Claim C8: for every non-empty candidate sequence \<^verbatim>\<open>net_bind\<close> attempts the IPv6 slot
  before the IPv4 slot; a failure of one family's factory is not fatal (the other family
  is still attempted and its descriptor returned with count 1); the value returned is the
  number (1 or 2) of descriptors produced, and it is \<open>-1\<close> exactly when both attempts
  failed.

  The slot \<open>ipv6\<close> holds a node of family \<open>AF_INET6\<close> and the slot \<open>ipv4\<close> one of family
  \<open>AF_INET\<close>, each taken from the first two nodes of the list, and a slot is set whenever
  one of the first two nodes has its family.
  Here \<open>d6\<close>, \<open>d4\<close> are the results of the two turns, the IPv6 turn taken in the state
  \<open>w\<close> of the call and the IPv4 turn in the state \<open>w6\<close> that the IPv6 turn left; a slot
  that is not set counts as a turn that produced nothing. The descriptors produced are
  stored at the front of the caller's array, IPv6 first. The caller's array has the two
  entries of the prototype.
\<close>

theorem C8_net_bind_counts_descriptors:
  assumes "cands \<noteq> []" and "length fds = 2"
  shows "\<exists>ipv4 ipv6 d6 w6 d4 w4 ret fds'.
     classify cands = Some (ipv4, ipv6)
     \<and> (\<forall>a. ipv6 = Some a \<longrightarrow> ai_family a = AF_INET6 \<and> a \<in> set (take 2 cands))
     \<and> (\<forall>a. ipv4 = Some a \<longrightarrow> ai_family a = AF_INET \<and> a \<in> set (take 2 cands))
     \<and> ((\<exists>a\<in>set (take 2 cands). ai_family a = AF_INET6) \<longrightarrow> ipv6 \<noteq> None)
     \<and> ((\<exists>a\<in>set (take 2 cands). ai_family a = AF_INET) \<longrightarrow> ipv4 \<noteq> None)
     \<and> attempt k ipv6 w = (d6, w6)
     \<and> attempt k ipv4 w6 = (d4, w4)
     \<and> net_bind k cands fds w = (Returns ret, fds', w4)
     \<and> (ret = - 1 \<longleftrightarrow> d6 < 0 \<and> d4 < 0)
     \<and> (ret \<noteq> - 1 \<longrightarrow> ret = int (length (filter (\<lambda>d. 0 \<le> d) [d6, d4])))
     \<and> take (length (filter (\<lambda>d. 0 \<le> d) [d6, d4])) fds' = filter (\<lambda>d. 0 \<le> d) [d6, d4]"
proof -
  obtain a rest where c: "cands = a # rest" using assms(1) by (cases cands) auto
  obtain x0 x1 where f: "fds = [x0, x1]" using assms(2)
    by (cases fds; cases "tl fds") auto
  obtain ipv4 ipv6 where cl: "classify cands = Some (ipv4, ipv6)"
    by (cases "classify cands")
       (auto simp: c classify_def Let_def split: list.splits if_splits)
  have fam: "(\<forall>a. ipv6 = Some a \<longrightarrow> ai_family a = AF_INET6 \<and> a \<in> set (take 2 cands))
     \<and> (\<forall>a. ipv4 = Some a \<longrightarrow> ai_family a = AF_INET \<and> a \<in> set (take 2 cands))
     \<and> ((\<exists>a\<in>set (take 2 cands). ai_family a = AF_INET6) \<longrightarrow> ipv6 \<noteq> None)
     \<and> ((\<exists>a\<in>set (take 2 cands). ai_family a = AF_INET) \<longrightarrow> ipv4 \<noteq> None)"
    using cl unfolding c
    by (cases rest)
       (auto simp: classify_def Let_def AF_INET_def AF_INET6_def split: if_splits)
  obtain d6 w6 where a6: "attempt k ipv6 w = (d6, w6)" by (cases "attempt k ipv6 w")
  obtain d4 w4 where a4: "attempt k ipv4 w6 = (d4, w4)" by (cases "attempt k ipv4 w6")
  have "\<exists>ret fds'. net_bind k cands fds w = (Returns ret, fds', w4)
     \<and> (ret = - 1 \<longleftrightarrow> d6 < 0 \<and> d4 < 0)
     \<and> (ret \<noteq> - 1 \<longrightarrow> ret = int (length (filter (\<lambda>d. 0 \<le> d) [d6, d4])))
     \<and> take (length (filter (\<lambda>d. 0 \<le> d) [d6, d4])) fds' = filter (\<lambda>d. 0 \<le> d) [d6, d4]"
    using cl a6 a4 unfolding f
    by (cases ipv6; cases ipv4)
       (auto simp: net_bind_def bind_slot_def attempt_def Let_def split: prod.splits)
  then show ?thesis using cl fam a6 a4 by blast
qed

theorem C8_net_bind_counts_descriptors_witness:
  "[cand4, cand6] \<noteq> [] \<and> length [0, 0 :: int] = 2
   \<and> classify [cand4, cand6] = Some (Some cand4, Some cand6)
   \<and> fst (net_bind dual_stack_os [cand4, cand6] [0, 0] world0) = Returns 1
   \<and> fst (snd (net_bind dual_stack_os [cand4, cand6] [0, 0] world0)) = [3, - 1]
   \<and> fst (net_bind quiet_os [cand4, cand6] [0, 0] world0) = Returns 2
   \<and> fst (snd (net_bind quiet_os [cand4, cand6] [0, 0] world0)) = [3, 4]"
proof -
  have ne: "[cand4, cand6] \<noteq> []" by simp
  have len: "length [0, 0 :: int] = 2" by simp
  show ?thesis
    using C8_net_bind_counts_descriptors [OF ne len, of dual_stack_os world0]
    by (simp add: bind_defs dual_stack_os_def quiet_os_def cand4_def cand6_def world0_def
                  consts_defs)
qed

text \<open>
  Claim C10: \<^verbatim>\<open>net_bind\<close> reads the first node of the candidate list before any test for
  emptiness, so a list that is not empty is a precondition; under it the reads of the
  classification are all defined, and only the first two nodes are looked at.
\<close>

theorem C10_net_bind_reads_first_two:
  "classify [] = None
   \<and> fst (net_bind k [] fds w) = Undefined
   \<and> classify (a # rest) \<noteq> None
   \<and> classify (a # rest) = classify (take 2 (a # rest))
   \<and> net_bind k (a # rest) fds w = net_bind k (take 2 (a # rest)) fds w"
  by (cases rest) (simp_all add: classify_def net_bind_def Let_def)

section \<open>What the loops of net_connect keep\<close>

text \<open>
  The live entries of the three arrays, as one list of triples, and the shape that the
  arrays have throughout: \<open>MAX_PROTOS\<close> entries each, at most that many of them live.
\<close>

fun st :: "flow \<Rightarrow> conn" where
  "st (Through s) = s"
| "st (GotOne s) = s"
| "st (Out s) = s"
| "st (MemFault s) = s"

definition live :: "conn \<Rightarrow> (int \<times> addrinfo option \<times> nat) list" where
  "live s = map (\<lambda>j. (fd (pfd s ! j), addr s ! j, slen s ! j)) [0..<unat (num s)]"

definition wf :: "conn \<Rightarrow> bool" where
  "wf s \<longleftrightarrow> length (pfd s) = 2 \<and> length (addr s) = 2 \<and> length (slen s) = 2
            \<and> unat (num s) \<le> 2"

lemma length_2_conv: "length xs = 2 \<longleftrightarrow> (\<exists>x y. xs = [x, y])"
  by (cases xs; cases "tl xs") auto

lemma small_index:
  fixes i n :: "32 word"
  assumes "unat n \<le> 2" and "i < n"
  shows "(n = 1 \<and> i = 0) \<or> (n = 2 \<and> i = 0) \<or> (n = 2 \<and> i = 1)"
proof -
  have "unat i < unat n" using assms(2) by (simp add: word_less_nat_alt)
  then have "(unat n = 1 \<and> unat i = 0) \<or> (unat n = 2 \<and> unat i = 0) \<or> (unat n = 2 \<and> unat i = 1)"
    using assms(1) by arith
  then show ?thesis
    by (simp add: word_unat_eq_iff)
qed


lemma wf_index: "wf s \<Longrightarrow> i < num s \<Longrightarrow>
    (num s = 1 \<and> i = 0) \<or> (num s = 2 \<and> i = 0) \<or> (num s = 2 \<and> i = 1)"
  by (rule small_index) (simp_all add: wf_def)

lemma wf_remove_fd: "wf s \<Longrightarrow> i < num s \<Longrightarrow> wf (remove_fd s i)"
  by (frule (1) wf_index)
     (auto simp: wf_def remove_fd_def memmove_down_def length_2_conv)

lemma live_remove_fd:
  "wf s \<Longrightarrow> i < num s \<Longrightarrow>
     live (remove_fd s i) = take (unat i) (live s) @ drop (Suc (unat i)) (live s)"
  by (frule (1) wf_index)
     (auto simp: wf_def remove_fd_def memmove_down_def length_2_conv live_def upt_0_2)

definition body_state :: "conn \<Rightarrow> flow \<Rightarrow> bool" where
  "body_state s R \<longleftrightarrow>
     wf (st R) \<and> sockfd (st R) = sockfd s \<and> set (live (st R)) \<subseteq> set (live s) \<and>
     (case R of
        Through s' \<Rightarrow> idx s' + 1 \<le> num s' \<and>
                      drop (unat (idx s' + 1)) (live s') = drop (Suc (unat (idx s))) (live s)
      | GotOne s' \<Rightarrow> idx s' < num s' \<and> idx s' = idx s \<and> pfd s' = pfd s \<and> live s' = live s
      | Out s' \<Rightarrow> True
      | MemFault s' \<Rightarrow> True)"

lemma live_trace_irrelevant [simp]:
  "live (s\<lparr>trace := t\<rparr>) = live s" "live (s\<lparr>errno := e\<rparr>) = live s"
  "live (s\<lparr>idx := i\<rparr>) = live s" "live (s\<lparr>sockfd := d\<rparr>) = live s"
  by (simp_all add: live_def)

lemma wf_irrelevant [simp]:
  "wf (s\<lparr>trace := t\<rparr>) = wf s" "wf (s\<lparr>errno := e\<rparr>) = wf s"
  "wf (s\<lparr>idx := i\<rparr>) = wf s" "wf (s\<lparr>sockfd := d\<rparr>) = wf s"
  by (simp_all add: wf_def)

lemma set_nonblock_frame:
  assumes "set_nonblock k d b s = (ok, s1)"
  shows "wf s1 = wf s" "live s1 = live s" "num s1 = num s" "idx s1 = idx s" "pfd s1 = pfd s"
    "addr s1 = addr s" "slen s1 = slen s" "sockfd s1 = sockfd s"
  using set_nonblock_locals [OF assms] by (simp_all add: wf_def live_def)

lemma seterr_frame [simp]:
  "wf (seterr r s) = wf s" "live (seterr r s) = live s" "pfd (seterr r s) = pfd s"
  "addr (seterr r s) = addr s" "slen (seterr r s) = slen s" "sockfd (seterr r s) = sockfd s"
  by (simp_all add: seterr_def split: sysres.splits)

lemma logev_frame [simp]:
  "wf (logev e s) = wf s" "live (logev e s) = live s" "pfd (logev e s) = pfd s"
  "addr (logev e s) = addr s" "slen (logev e s) = slen s" "sockfd (logev e s) = sockfd s"
  by (simp_all add: logev_def)

lemma remove_fd_sockfd [simp]: "sockfd (remove_fd s i) = sockfd s"
  by (simp add: remove_fd_def Let_def)

lemma live_events_update:
  "live (s\<lparr>pfd := (pfd s)[j := (pfd s ! j)\<lparr>events := v\<rparr>]\<rparr>) = live s"
  by (cases "j < length (pfd s)") (auto simp: live_def nth_list_update list_update_beyond)

lemma wf_events_update:
  "wf (s\<lparr>pfd := (pfd s)[j := p]\<rparr>) = wf s"
  by (simp add: wf_def)

lemma removed_state:
  assumes "wf s" "idx s < num s"
  shows "wf (remove_fd s (idx s))"
    and "set (live (remove_fd s (idx s))) \<subseteq> set (live s)"
    and "idx s - 1 + 1 \<le> num s - 1"
    and "drop (unat (idx s - 1 + 1)) (live (remove_fd s (idx s))) = drop (Suc (unat (idx s))) (live s)"
    and "length (live s) = unat (num s)"
proof -
  show "wf (remove_fd s (idx s))" using assms by (rule wf_remove_fd)
  show "set (live (remove_fd s (idx s))) \<subseteq> set (live s)"
    unfolding live_remove_fd [OF assms] by (auto dest: in_set_takeD in_set_dropD)
  show "idx s - 1 + 1 \<le> num s - 1"
    using wf_index [OF assms] by auto
  show len: "length (live s) = unat (num s)" by (simp add: live_def)
  have "unat (idx s) < unat (num s)" using assms(2) by (simp add: word_less_nat_alt)
  then show "drop (unat (idx s - 1 + 1)) (live (remove_fd s (idx s))) = drop (Suc (unat (idx s))) (live s)"
    unfolding live_remove_fd [OF assms] by (simp add: len)
qed

lemma kept_state:
  assumes "wf s" "idx s < num s"
  shows "idx s + 1 \<le> num s" and "unat (idx s + 1) = Suc (unat (idx s))" and "unat (idx s) < 2"
  using wf_index [OF assms] by auto

lemma setup_body_state:
  assumes wf: "wf s" and lt: "idx s < num s"
  shows "body_state s (setup_body k s)"
proof -
  let ?i = "unat (idx s)"
  note kept = kept_state [OF wf lt]
  obtain ok s1 where nb: "set_nonblock k (fd (pfd s ! ?i)) True s = (ok, s1)"
    by (cases "set_nonblock k (fd (pfd s ! ?i)) True s")
  note fr = set_nonblock_frame [OF nb]
  have wf1: "wf s1" and lt1: "idx s1 < num s1" using wf lt fr by simp_all
  note rem1 = removed_state [OF wf1 lt1]
  show ?thesis
  proof (cases ok)
    case False
    then have "setup_body k s = Through ((remove_fd s1 (idx s1))\<lparr>idx := idx s1 - 1\<rparr>)"
      using kept(3) nb by (simp add: setup_body_def MAX_PROTOS_def)
    then show ?thesis
      using rem1 fr by (simp add: body_state_def)
  next
    case True
    show ?thesis
    proof (cases "addr s1 ! ?i")
      case None
      then have "setup_body k s = MemFault s1"
        using kept(3) nb True fr by (simp add: setup_body_def MAX_PROTOS_def)
      then show ?thesis using wf1 fr by (simp add: body_state_def)
    next
      case (Some a)
      define r where "r = sys_connect k (now s1) (fd (pfd s ! ?i)) (ai_addr a) (slen s1 ! ?i)"
      define s2 where "s2 = seterr r (logev (EvConnect (fd (pfd s ! ?i)) (ai_addr a) (slen s1 ! ?i) r) s1)"
      have fr2: "wf s2" "live s2 = live s" "num s2 = num s" "idx s2 = idx s" "pfd s2 = pfd s"
        "sockfd s2 = sockfd s"
        using wf1 fr by (simp_all add: s2_def)
      have lt2: "idx s2 < num s2" using lt fr2 by simp
      note rem2 = removed_state [OF fr2(1) lt2]
      have body: "setup_body k s =
        (if retval r = 0 then GotOne s2
         else
           (let s3 = (if errno s2 \<noteq> EINPROGRESS
                      then (remove_fd s2 (idx s2))\<lparr>idx := idx s2 - 1\<rparr> else s2);
                j = unat (idx s3)
            in if MAX_PROTOS \<le> j then MemFault s3
               else Through (s3\<lparr>pfd := (pfd s3)[j := (pfd s3 ! j)\<lparr>events := POLLOUT\<rparr>]\<rparr>)))"
        using kept(3) nb True fr Some
        by (simp add: setup_body_def MAX_PROTOS_def r_def s2_def Let_def)
      show ?thesis
        unfolding body using fr2 lt2 rem2 kept
        by (auto simp: body_state_def Let_def live_events_update wf_events_update)
    qed
  qed
qed

fun conn_ok :: "event \<Rightarrow> bool" where
  "conn_ok (EvConnect d a l r) = (retval r = 0)"
| "conn_ok e = False"

fun is_fcntl :: "event \<Rightarrow> bool" where
  "is_fcntl (EvGetfl d r) = True"
| "is_fcntl (EvSetfl d f r) = True"
| "is_fcntl e = False"

fun is_connect :: "event \<Rightarrow> bool" where
  "is_connect (EvConnect d a l r) = True"
| "is_connect e = False"

fun conn_arg :: "event \<Rightarrow> (sockaddr \<times> nat) list" where
  "conn_arg (EvConnect d a l r) = [(a, l)]"
| "conn_arg e = []"

definition conn_args :: "event list \<Rightarrow> (sockaddr \<times> nat) list" where
  "conn_args evs = concat (map conn_arg evs)"

fun target :: "int \<times> addrinfo option \<times> nat \<Rightarrow> (sockaddr \<times> nat) list" where
  "target (d, Some a, l) = [(ai_addr a, l)]"
| "target (d, None, l) = []"

definition targets :: "(int \<times> addrinfo option \<times> nat) list \<Rightarrow> (sockaddr \<times> nat) list" where
  "targets ls = concat (map target ls)"

lemma is_fcntl_simps [simp]:
  "is_fcntl e \<Longrightarrow> \<not> conn_ok e" "is_fcntl e \<Longrightarrow> conn_arg e = []" "is_fcntl e \<Longrightarrow> \<not> is_connect e"
  by (cases e; simp)+

lemma conn_args_simps [simp]:
  "conn_args [] = []" "conn_args (e # evs) = conn_arg e @ conn_args evs"
  "conn_args (xs @ ys) = conn_args xs @ conn_args ys"
  by (simp_all add: conn_args_def)

lemma conn_args_fcntl: "\<forall>e\<in>set evs. is_fcntl e \<Longrightarrow> conn_args evs = []"
  by (induction evs) auto

lemma set_nonblock_trace:
  assumes "set_nonblock k d b s = (ok, s1)"
  shows "\<exists>evs. trace s1 = trace s @ evs \<and> (\<forall>e\<in>set evs. is_fcntl e)"
  using assms
  by (auto simp: set_nonblock_def seterr_def logev_def Let_def split: sysres.splits if_splits)

lemma trace_frame [simp]:
  "trace (remove_fd s i) = trace s"
  "trace (seterr r s) = trace s"
  "trace (logev e s) = trace s @ [e]"
  by (simp_all add: remove_fd_def seterr_def logev_def Let_def split: sysres.splits)

definition body_trace :: "conn \<Rightarrow> flow \<Rightarrow> event list \<Rightarrow> bool" where
  "body_trace s R evs \<longleftrightarrow>
     trace (st R) = trace s @ evs
     \<and> (\<forall>e\<in>set evs. is_fcntl e \<or> is_connect e)
     \<and> (\<forall>e\<in>set (butlast evs). \<not> conn_ok e)
     \<and> (case R of
          GotOne s' \<Rightarrow> evs \<noteq> [] \<and> conn_ok (last evs) \<and>
                       (\<exists>a l r. last evs = EvConnect (fd (pfd s' ! unat (idx s'))) a l r)
        | Out s' \<Rightarrow> False
        | Through s' \<Rightarrow> (\<forall>e\<in>set evs. \<not> conn_ok e)
        | MemFault s' \<Rightarrow> (\<forall>e\<in>set evs. \<not> conn_ok e))"

lemma setup_body_trace:
  "\<exists>evs. body_trace s (setup_body k s) evs \<and>
         subseq (conn_args evs) (target (fd (pfd s ! unat (idx s)), addr s ! unat (idx s), slen s ! unat (idx s)))"
proof -
  let ?i = "unat (idx s)"
  obtain ok s1 where nb: "set_nonblock k (fd (pfd s ! ?i)) True s = (ok, s1)"
    by (cases "set_nonblock k (fd (pfd s ! ?i)) True s")
  note fr = set_nonblock_locals [OF nb]
  from set_nonblock_trace [OF nb] obtain ev1
    where ev1: "trace s1 = trace s @ ev1" "\<forall>e\<in>set ev1. is_fcntl e" by blast
  have ca1: "conn_args ev1 = []" using ev1(2) by (rule conn_args_fcntl)
  show ?thesis
  proof (cases "MAX_PROTOS \<le> ?i")
    case True
    then have "setup_body k s = MemFault s" by (simp add: setup_body_def)
    then show ?thesis by (intro exI [of _ "[]"]) (simp add: body_trace_def)
  next
    case small: False
    show ?thesis
    proof (cases ok)
      case False
      then have "setup_body k s = Through ((remove_fd s1 (idx s1))\<lparr>idx := idx s1 - 1\<rparr>)"
        using small nb by (simp add: setup_body_def)
      then show ?thesis using ev1 ca1
        by (intro exI [of _ ev1]) (auto simp: body_trace_def dest: in_set_butlastD)
    next
      case True
      show ?thesis
      proof (cases "addr s ! ?i")
        case None
        then have "setup_body k s = MemFault s1"
          using small nb True fr by (simp add: setup_body_def)
        then show ?thesis using ev1 ca1
          by (intro exI [of _ ev1]) (auto simp: body_trace_def dest: in_set_butlastD)
      next
        case (Some a)
        define r where "r = sys_connect k (now s1) (fd (pfd s ! ?i)) (ai_addr a) (slen s ! ?i)"
        define ev where "ev = EvConnect (fd (pfd s ! ?i)) (ai_addr a) (slen s ! ?i) r"
        define s2 where "s2 = seterr r (logev ev s1)"
        have tr2: "trace s2 = trace s @ ev1 @ [ev]" by (simp add: s2_def ev1)
        have l2: "pfd s2 = pfd s" "idx s2 = idx s"
          using fr by (simp_all add: s2_def)
        have body: "setup_body k s =
          (if retval r = 0 then GotOne s2
           else
             (let s3 = (if errno s2 \<noteq> EINPROGRESS
                        then (remove_fd s2 (idx s2))\<lparr>idx := idx s2 - 1\<rparr> else s2);
                  j = unat (idx s3)
              in if MAX_PROTOS \<le> j then MemFault s3
                 else Through (s3\<lparr>pfd := (pfd s3)[j := (pfd s3 ! j)\<lparr>events := POLLOUT\<rparr>]\<rparr>)))"
          using small nb True fr Some
          by (simp add: setup_body_def r_def s2_def ev_def Let_def)
        show ?thesis
          unfolding body using tr2 l2 ev1(2) ca1 Some
          by (intro exI [of _ "ev1 @ [ev]"])
             (auto simp: body_trace_def Let_def ev_def)
      qed
    qed
  qed
qed

lemma body_trace_seq:
  assumes "body_trace s (Through s') ev1" and "body_trace s'' R ev2" and "trace s'' = trace s'"
  shows "body_trace s R (ev1 @ ev2)"
  using assms by (cases R) (auto simp: body_trace_def butlast_append dest: in_set_butlastD)

lemma body_trace_nil: "body_trace s (Through s) []"
  by (simp add: body_trace_def)

lemma targets_simps [simp]:
  "targets [] = []" "targets (x # xs) = target x @ targets xs"
  by (simp_all add: targets_def)

lemma live_nth: "j < unat (num s) \<Longrightarrow> live s ! j = (fd (pfd s ! j), addr s ! j, slen s ! j)"
  by (simp add: live_def)

lemma length_live [simp]: "length (live s) = unat (num s)"
  by (simp add: live_def)

lemma setup_loop_post:
  "wf s \<Longrightarrow> idx s \<le> num s \<Longrightarrow>
   \<exists>evs. body_trace s (setup_loop k s) evs
        \<and> subseq (conn_args evs) (targets (drop (unat (idx s)) (live s)))
        \<and> wf (st (setup_loop k s))
        \<and> sockfd (st (setup_loop k s)) = sockfd s
        \<and> set (live (st (setup_loop k s))) \<subseteq> set (live s)
        \<and> (\<forall>s'. setup_loop k s = GotOne s' \<longrightarrow> idx s' < num s')"
proof (induction k s rule: setup_loop.induct)
  case (1 k s)
  show ?case
  proof (cases "idx s < num s")
    case False
    then have "setup_loop k s = Through s" by (subst setup_loop.simps) simp
    then show ?thesis using "1.prems"
      by (intro exI [of _ "[]"]) (simp add: body_trace_nil)
  next
    case True
    let ?i = "unat (idx s)"
    have ilt: "?i < unat (num s)" using True by (simp add: word_less_nat_alt)
    note bs = setup_body_state [OF "1.prems"(1) True, of k]
    obtain ev1 where bt: "body_trace s (setup_body k s) ev1"
      and sub1: "subseq (conn_args ev1) (target (live s ! ?i))"
      using setup_body_trace [of s k] by (auto simp: live_nth [OF ilt])
    have split: "targets (drop ?i (live s)) = target (live s ! ?i) @ targets (drop (Suc ?i) (live s))"
      using ilt by (simp add: Cons_nth_drop_Suc [symmetric])
    show ?thesis
    proof (cases "setup_body k s")
      case (Through s')
      let ?n = "s'\<lparr>idx := idx s' + 1\<rparr>"
      have loop: "setup_loop k s = setup_loop k ?n"
        by (subst setup_loop.simps) (simp add: True Through)
      have wfn: "wf ?n" and len: "idx ?n \<le> num ?n"
        and dr: "drop (unat (idx ?n)) (live ?n) = drop (Suc ?i) (live s)"
        and sf: "sockfd ?n = sockfd s" and lv: "set (live ?n) \<subseteq> set (live s)"
        using bs by (simp_all add: body_state_def Through)
      from "1.IH" [OF True Through wfn len] obtain ev2
        where bt2: "body_trace ?n (setup_loop k ?n) ev2"
          and sub2: "subseq (conn_args ev2) (targets (drop (Suc ?i) (live s)))"
          and rest: "wf (st (setup_loop k ?n))" "sockfd (st (setup_loop k ?n)) = sockfd ?n"
            "set (live (st (setup_loop k ?n))) \<subseteq> set (live ?n)"
            "\<forall>s'. setup_loop k ?n = GotOne s' \<longrightarrow> idx s' < num s'"
        unfolding dr by blast
      have "body_trace s (setup_loop k ?n) (ev1 @ ev2)"
        using bt bt2 by (intro body_trace_seq [where s' = s' and s'' = ?n]) (simp_all add: Through)
      moreover have "subseq (conn_args (ev1 @ ev2)) (targets (drop ?i (live s)))"
        unfolding split using sub1 sub2 by (simp add: list_emb_append_mono)
      ultimately show ?thesis
        unfolding loop using rest sf lv by (intro exI [of _ "ev1 @ ev2"]) auto
    next
      case (GotOne s')
      have loop: "setup_loop k s = GotOne s'"
        by (subst setup_loop.simps) (simp add: True GotOne)
      have "subseq (conn_args ev1) (targets (drop ?i (live s)))"
        unfolding split using sub1 by (rule subseq_rev_drop_many)
      then show ?thesis
        unfolding loop using bt bs by (intro exI [of _ ev1]) (auto simp: GotOne body_state_def)
    next
      case (Out s')
      then show ?thesis using bt by (simp add: body_trace_def)
    next
      case (MemFault s')
      have loop: "setup_loop k s = MemFault s'"
        by (subst setup_loop.simps) (simp add: True MemFault)
      have "subseq (conn_args ev1) (targets (drop ?i (live s)))"
        unfolding split using sub1 by (rule subseq_rev_drop_many)
      then show ?thesis
        unfolding loop using bt bs by (intro exI [of _ ev1]) (simp add: MemFault body_state_def)
    qed
  qed
qed

fun is_wait :: "event \<Rightarrow> bool" where
  "is_wait (EvPoll p r) = True"
| "is_wait (EvGetsockopt d r) = True"
| "is_wait e = False"

fun is_close :: "event \<Rightarrow> bool" where
  "is_close (EvClose d r) = True"
| "is_close e = False"

lemma poll_body_state:
  assumes wf: "wf s" and lt: "idx s < num s"
  shows "body_state s (poll_body k s)"
proof -
  note kept = kept_state [OF wf lt]
  define r where "r = sys_getsockopt k (now s) (fd (pfd s ! unat (idx s)))"
  define s1 where "s1 = logev (EvGetsockopt (fd (pfd s ! unat (idx s))) r) s"
  have fr: "wf s1" "live s1 = live s" "num s1 = num s" "idx s1 = idx s" "pfd s1 = pfd s"
    "sockfd s1 = sockfd s"
    using wf by (simp_all add: s1_def)
  have "wf (s1\<lparr>errno := e\<rparr>)" "idx (s1\<lparr>errno := e\<rparr>) < num (s1\<lparr>errno := e\<rparr>)" for e
    using fr lt by simp_all
  note rem = removed_state [OF this]
  have body: "poll_body k s =
    (if revents (pfd s ! unat (idx s)) = 0 then Through s
     else case r of
            GsoErr e \<Rightarrow> Out (s1\<lparr>errno := e\<rparr>)
          | Gso err \<Rightarrow>
              if err = 0 then GotOne s1
              else Through ((remove_fd (s1\<lparr>errno := err\<rparr>) (idx s1))\<lparr>idx := idx s1 - 1\<rparr>))"
    using kept(3)
    by (simp add: poll_body_def MAX_PROTOS_def r_def s1_def Let_def split: gsores.splits)
  show ?thesis
    unfolding body using fr lt rem kept wf
    by (auto simp: body_state_def split: gsores.splits)
qed

definition wait_trace :: "conn \<Rightarrow> flow \<Rightarrow> event list \<Rightarrow> bool" where
  "wait_trace s R evs \<longleftrightarrow>
     trace (st R) = trace s @ evs
     \<and> (\<forall>e\<in>set evs. is_wait e)
     \<and> (\<forall>s'. R = GotOne s' \<longrightarrow>
            evs \<noteq> [] \<and> last evs = EvGetsockopt (fd (pfd s' ! unat (idx s'))) (Gso 0))"

lemma poll_body_trace: "\<exists>evs. wait_trace s (poll_body k s) evs"
  by (auto simp: poll_body_def wait_trace_def Let_def logev_def split: gsores.splits)

lemma wait_trace_seq:
  assumes "wait_trace s (Through s') ev1" and "wait_trace s'' R ev2" and "trace s'' = trace s'"
  shows "wait_trace s R (ev1 @ ev2)"
  using assms by (auto simp: wait_trace_def)

lemma wait_trace_nil: "wait_trace s (Through s) []"
  by (simp add: wait_trace_def)

lemma poll_for_post:
  "wf s \<Longrightarrow> idx s \<le> num s \<Longrightarrow>
   \<exists>evs. wait_trace s (poll_for k s) evs
        \<and> wf (st (poll_for k s))
        \<and> sockfd (st (poll_for k s)) = sockfd s
        \<and> set (live (st (poll_for k s))) \<subseteq> set (live s)
        \<and> (\<forall>s'. poll_for k s = GotOne s' \<longrightarrow> idx s' < num s')"
proof (induction k s rule: poll_for.induct)
  case (1 k s)
  show ?case
  proof (cases "idx s < num s")
    case False
    then have "poll_for k s = Through s" by (subst poll_for.simps) simp
    then show ?thesis using "1.prems"
      by (intro exI [of _ "[]"]) (simp add: wait_trace_nil)
  next
    case True
    note bs = poll_body_state [OF "1.prems"(1) True, of k]
    obtain ev1 where bt: "wait_trace s (poll_body k s) ev1"
      using poll_body_trace [of s k] by blast
    show ?thesis
    proof (cases "poll_body k s")
      case (Through s')
      let ?n = "s'\<lparr>idx := idx s' + 1\<rparr>"
      have loop: "poll_for k s = poll_for k ?n"
        by (subst poll_for.simps) (simp add: True Through)
      have wfn: "wf ?n" and len: "idx ?n \<le> num ?n"
        and sf: "sockfd ?n = sockfd s" and lv: "set (live ?n) \<subseteq> set (live s)"
        using bs by (simp_all add: body_state_def Through)
      from "1.IH" [OF True Through wfn len] obtain ev2
        where bt2: "wait_trace ?n (poll_for k ?n) ev2"
          and rest: "wf (st (poll_for k ?n))" "sockfd (st (poll_for k ?n)) = sockfd ?n"
            "set (live (st (poll_for k ?n))) \<subseteq> set (live ?n)"
            "\<forall>s'. poll_for k ?n = GotOne s' \<longrightarrow> idx s' < num s'"
        by blast
      have "wait_trace s (poll_for k ?n) (ev1 @ ev2)"
        using bt bt2 by (intro wait_trace_seq [where s' = s' and s'' = ?n]) (simp_all add: Through)
      then show ?thesis
        unfolding loop using rest sf lv by (intro exI [of _ "ev1 @ ev2"]) auto
    next
      case (GotOne s')
      have loop: "poll_for k s = GotOne s'"
        by (subst poll_for.simps) (simp add: True GotOne)
      show ?thesis
        unfolding loop using bt bs by (intro exI [of _ ev1]) (auto simp: GotOne body_state_def)
    next
      case (Out s')
      have loop: "poll_for k s = Out s'"
        by (subst poll_for.simps) (simp add: True Out)
      show ?thesis
        unfolding loop using bt bs by (intro exI [of _ ev1]) (auto simp: Out body_state_def)
    next
      case (MemFault s')
      have loop: "poll_for k s = MemFault s'"
        by (subst poll_for.simps) (simp add: True MemFault)
      show ?thesis
        unfolding loop using bt bs by (intro exI [of _ ev1]) (auto simp: MemFault body_state_def)
    qed
  qed
qed

lemma store_revents_length [simp]: "length (store_revents a n revs) = length a"
  by (simp add: store_revents_def)

lemma store_revents_fd: "j < length a \<Longrightarrow> fd (store_revents a n revs ! j) = fd (a ! j)"
  by (simp add: store_revents_def nth_enumerate_eq)

lemma live_store_revents [simp]:
  "wf s \<Longrightarrow> live (s\<lparr>pfd := store_revents (pfd s) n revs\<rparr>) = live s"
  by (auto simp: live_def wf_def store_revents_fd)

lemma wf_store_revents [simp]:
  "wf (s\<lparr>pfd := store_revents (pfd s) n revs\<rparr>) = wf s"
  by (simp add: wf_def)

lemma poll_loop_post:
  "wf s \<Longrightarrow> poll_loop k fuel s = Some R \<Longrightarrow>
   \<exists>evs. wait_trace s R evs
        \<and> wf (st R) \<and> sockfd (st R) = sockfd s \<and> set (live (st R)) \<subseteq> set (live s)
        \<and> (\<forall>s'. R = GotOne s' \<longrightarrow> idx s' < num s')"
proof (induction fuel arbitrary: s)
  case 0
  then have "R = Through s" by (simp split: if_splits)
  then show ?case using "0.prems"(1) by (intro exI [of _ "[]"]) (simp add: wait_trace_nil)
next
  case (Suc fuel)
  show ?case
  proof (cases "num s = 0")
    case True
    then have "R = Through s" using Suc.prems(2) by simp
    then show ?thesis using Suc.prems(1) by (intro exI [of _ "[]"]) (simp add: wait_trace_nil)
  next
    case False
    define polled where "polled = take (unat (num s)) (pfd s)"
    define r where "r = sys_poll k (now s) polled"
    define s1 where "s1 = logev (EvPoll polled r) s"
    have fr1: "wf s1" "live s1 = live s" "sockfd s1 = sockfd s" "trace s1 = trace s @ [EvPoll polled r]"
      using Suc.prems(1) by (simp_all add: s1_def)
    show ?thesis
    proof (cases r)
      case (PollErr e)
      then have "R = Through (s1\<lparr>errno := e\<rparr>)"
        using Suc.prems(2) False by (simp add: Let_def polled_def r_def s1_def)
      then show ?thesis using fr1
        by (intro exI [of _ "[EvPoll polled r]"]) (simp add: wait_trace_def)
    next
      case (PollOk revs)
      define s2 where "s2 = s1\<lparr>pfd := store_revents (pfd s1) (unat (num s1)) revs, idx := 0\<rparr>"
      have fr2: "wf s2" "live s2 = live s" "sockfd s2 = sockfd s" "trace s2 = trace s1" "idx s2 \<le> num s2"
        using fr1 by (simp_all add: s2_def)
      have w1: "wait_trace s (Through s2) [EvPoll polled r]"
        using fr1 fr2 by (simp add: wait_trace_def)
      have run: "(case poll_for k s2 of
                   Through s3 \<Rightarrow> poll_loop k fuel s3
                 | GotOne s3 \<Rightarrow> Some (GotOne s3)
                 | Out s3 \<Rightarrow> Some (Out s3)
                 | MemFault s3 \<Rightarrow> Some (MemFault s3)) = Some R"
        using Suc.prems(2) False PollOk unfolding s2_def s1_def r_def polled_def
        by (simp add: Let_def)
      from poll_for_post [OF fr2(1) fr2(5), of k] obtain ev2
        where pf: "wait_trace s2 (poll_for k s2) ev2" "wf (st (poll_for k s2))"
          "sockfd (st (poll_for k s2)) = sockfd s2"
          "set (live (st (poll_for k s2))) \<subseteq> set (live s2)"
          "\<forall>s'. poll_for k s2 = GotOne s' \<longrightarrow> idx s' < num s'"
        by blast
      show ?thesis
      proof (cases "poll_for k s2")
        case (Through s3)
        then have rec: "poll_loop k fuel s3 = Some R" using run by simp
        have wf3: "wf s3" using pf(2) Through by simp
        from Suc.IH [OF wf3 rec] obtain ev3
          where p3: "wait_trace s3 R ev3" "wf (st R)" "sockfd (st R) = sockfd s3"
            "set (live (st R)) \<subseteq> set (live s3)" "\<forall>s'. R = GotOne s' \<longrightarrow> idx s' < num s'"
          by blast
        have w2: "wait_trace s (Through s3) ([EvPoll polled r] @ ev2)"
          using w1 pf(1) unfolding Through
          by (rule wait_trace_seq) simp
        have "wait_trace s R (([EvPoll polled r] @ ev2) @ ev3)"
          using w2 p3(1) by (rule wait_trace_seq) simp
        then show ?thesis
          using p3 pf fr2 Through by (intro exI [of _ "([EvPoll polled r] @ ev2) @ ev3"]) auto
      next
        case (GotOne s3)
        then have R: "R = poll_for k s2" using run by simp
        have "wait_trace s R ([EvPoll polled r] @ ev2)"
          using w1 pf(1) unfolding R by (rule wait_trace_seq) simp
        then show ?thesis
          using pf fr2 unfolding R by (intro exI [of _ "[EvPoll polled r] @ ev2"]) auto
      next
        case (Out s3)
        then have R: "R = poll_for k s2" using run by simp
        have "wait_trace s R ([EvPoll polled r] @ ev2)"
          using w1 pf(1) unfolding R by (rule wait_trace_seq) simp
        then show ?thesis
          using pf fr2 unfolding R by (intro exI [of _ "[EvPoll polled r] @ ev2"]) auto
      next
        case (MemFault s3)
        then have R: "R = poll_for k s2" using run by simp
        have "wait_trace s R ([EvPoll polled r] @ ev2)"
          using w1 pf(1) unfolding R by (rule wait_trace_seq) simp
        then show ?thesis
          using pf fr2 unfolding R by (intro exI [of _ "[EvPoll polled r] @ ev2"]) auto
      qed
    qed
  qed
qed

lemma close_loop_post:
  "wf s \<Longrightarrow>
   \<exists>s' evs. close_loop k s = Through s' \<and> trace s' = trace s @ evs
        \<and> (\<forall>e\<in>set evs. is_close e)
        \<and> sockfd s' = sockfd s \<and> num s' = num s \<and> pfd s' = pfd s
        \<and> (\<forall>j. unat (idx s) \<le> j \<and> j < unat (num s) \<and> fd (pfd s ! j) \<noteq> sockfd s
               \<longrightarrow> (\<exists>r. EvClose (fd (pfd s ! j)) r \<in> set evs))"
proof (induction k s rule: close_loop.induct)
  case (1 k s)
  show ?case
  proof (cases "idx s < num s")
    case False
    then have "close_loop k s = Through s" by (subst close_loop.simps) simp
    moreover have "\<not> (unat (idx s) \<le> j \<and> j < unat (num s))" for j
      using False by (simp add: word_less_nat_alt)
    ultimately show ?thesis by (intro exI [of _ s] exI [of _ "[]"]) auto
  next
    case True
    note kept = kept_state [OF "1.prems" True]
    let ?d = "fd (pfd s ! unat (idx s))"
    define s1 where "s1 = (if ?d \<noteq> sockfd s
                           then seterr (sys_close k (now s) ?d)
                                  (logev (EvClose ?d (sys_close k (now s) ?d)) s)
                           else s)"
    let ?n = "s1\<lparr>idx := idx s1 + 1\<rparr>"
    have fr: "wf ?n" "sockfd ?n = sockfd s" "num ?n = num s" "pfd ?n = pfd s"
      "idx ?n = idx s + 1"
      "trace ?n = trace s @ (if ?d \<noteq> sockfd s then [EvClose ?d (sys_close k (now s) ?d)] else [])"
      using "1.prems" by (simp_all add: s1_def)
    have loop: "close_loop k s = close_loop k ?n"
      using True kept(3)
      by (subst close_loop.simps) (simp add: MAX_PROTOS_def Let_def s1_def)
    have "\<not> MAX_PROTOS \<le> unat (idx s)" using kept(3) by (simp add: MAX_PROTOS_def)
    note IH = "1.IH" [OF True this refl refl, unfolded Let_def, folded s1_def]
    from IH [OF fr(1)]
    obtain s' ev2 where ih: "close_loop k ?n = Through s'" "trace s' = trace ?n @ ev2"
      "\<forall>e\<in>set ev2. is_close e" "sockfd s' = sockfd ?n" "num s' = num ?n" "pfd s' = pfd ?n"
      "\<forall>j. unat (idx ?n) \<le> j \<and> j < unat (num ?n) \<and> fd (pfd ?n ! j) \<noteq> sockfd ?n
               \<longrightarrow> (\<exists>r. EvClose (fd (pfd ?n ! j)) r \<in> set ev2)"
      by blast
    let ?ev1 = "(if ?d \<noteq> sockfd s then [EvClose ?d (sys_close k (now s) ?d)] else [])"
    have cover: "\<exists>r. EvClose (fd (pfd s ! j)) r \<in> set (?ev1 @ ev2)"
      if j: "unat (idx s) \<le> j" "j < unat (num s)" "fd (pfd s ! j) \<noteq> sockfd s" for j
    proof (cases "j = unat (idx s)")
      case True
      then show ?thesis using j(3) by auto
    next
      case False
      then have "unat (idx ?n) \<le> j" using j(1) kept(2) fr(5) by simp
      then show ?thesis using ih(7) j fr by auto
    qed
    show ?thesis
      unfolding loop
      using ih fr cover
      by (intro exI [of _ s'] exI [of _ "?ev1 @ ev2"]) (auto simp del: set_append)
  qed
qed

fun is_socket :: "event \<Rightarrow> bool" where
  "is_socket (EvSocket f t p r) = True"
| "is_socket e = False"

fun sock_arg :: "event \<Rightarrow> (int \<times> int \<times> int) list" where
  "sock_arg (EvSocket f t p r) = [(f, t, p)]"
| "sock_arg e = []"

definition sock_args :: "event list \<Rightarrow> (int \<times> int \<times> int) list" where
  "sock_args evs = concat (map sock_arg evs)"

fun is_poll :: "event \<Rightarrow> bool" where
  "is_poll (EvPoll p r) = True"
| "is_poll e = False"

definition first_of :: "int \<Rightarrow> addrinfo list \<Rightarrow> addrinfo list" where
  "first_of fam cands = (case find (\<lambda>a. ai_family a = fam) cands of None \<Rightarrow> [] | Some a \<Rightarrow> [a])"

lemma sock_args_simps [simp]:
  "sock_args [] = []" "sock_args (e # evs) = sock_arg e @ sock_args evs"
  "sock_args (xs @ ys) = sock_args xs @ sock_args ys"
  by (simp_all add: sock_args_def)

lemma sock_args_none: "\<forall>e\<in>set evs. \<not> is_socket e \<Longrightarrow> sock_args evs = []"
proof (induction evs)
  case Nil
  show ?case by simp
next
  case (Cons e evs)
  then show ?case by (cases e) simp_all
qed

lemma conn_args_none: "\<forall>e\<in>set evs. \<not> is_connect e \<Longrightarrow> conn_args evs = []"
proof (induction evs)
  case Nil
  show ?case by simp
next
  case (Cons e evs)
  then show ?case by (cases e) simp_all
qed

lemma kinds_disjoint [simp]:
  "is_fcntl e \<Longrightarrow> \<not> is_socket e" "is_fcntl e \<Longrightarrow> \<not> is_poll e"
  "is_connect e \<Longrightarrow> \<not> is_socket e" "is_connect e \<Longrightarrow> \<not> is_poll e"
  "is_wait e \<Longrightarrow> \<not> is_socket e" "is_wait e \<Longrightarrow> \<not> is_connect e" "is_wait e \<Longrightarrow> \<not> conn_ok e"
  "is_close e \<Longrightarrow> \<not> is_socket e" "is_close e \<Longrightarrow> \<not> is_connect e" "is_close e \<Longrightarrow> \<not> conn_ok e"
  "is_close e \<Longrightarrow> \<not> is_poll e"
  "conn_ok e \<Longrightarrow> is_connect e"
  by (cases e; simp)+

lemma scan_find:
  "scan cands v4 v6 =
     ((case v4 of None \<Rightarrow> find (\<lambda>a. ai_family a = AF_INET) cands | Some x \<Rightarrow> Some x),
      (case v6 of None \<Rightarrow> find (\<lambda>a. ai_family a = AF_INET6) cands | Some x \<Rightarrow> Some x))"
  by (induction cands arbitrary: v4 v6)
     (auto simp: AF_INET_def AF_INET6_def split: option.splits)

lemma nc_init_post:
  "wf (nc_init junk e0)" "live (nc_init junk e0) = []" "sockfd (nc_init junk e0) = - 1"
  "trace (nc_init junk e0) = []" "num (nc_init junk e0) = 0"
  by (simp_all add: nc_init_def wf_def live_def MAX_PROTOS_def)

lemma open_slot_post:
  fixes k fam a s
  assumes "wf s" and "unat (num s) < 2"
  defines "r \<equiv> sys_socket k (now s) fam (ai_socktype a) (ai_protocol a)"
  shows "wf (open_slot k fam sz a s)"
    and "trace (open_slot k fam sz a s) = trace s @ [EvSocket fam (ai_socktype a) (ai_protocol a) r]"
    and "sockfd (open_slot k fam sz a s) = sockfd s"
    and "live (open_slot k fam sz a s) = live s @ (if retval r \<noteq> - 1 then [(retval r, Some a, sz)] else [])"
    and "unat (num (open_slot k fam sz a s)) \<le> Suc (unat (num s))"
proof -
  have n: "num s = 0 \<or> num s = 1"
    using assms(2) by (auto simp: word_unat_eq_iff)
  obtain p0 p1 a0 a1 l0 l1 where arr: "pfd s = [p0, p1]" "addr s = [a0, a1]" "slen s = [l0, l1]"
    using assms(1) by (auto simp: wf_def length_2_conv)
  show "wf (open_slot k fam sz a s)"
    using n arr assms(1) by (auto simp: open_slot_def Let_def wf_def seterr_def logev_def split: sysres.splits)
  show "trace (open_slot k fam sz a s) = trace s @ [EvSocket fam (ai_socktype a) (ai_protocol a) r]"
    by (simp add: open_slot_def Let_def r_def)
  show "sockfd (open_slot k fam sz a s) = sockfd s"
    by (simp add: open_slot_def Let_def)
  show "live (open_slot k fam sz a s) = live s @ (if retval r \<noteq> - 1 then [(retval r, Some a, sz)] else [])"
    using n arr
    by (auto simp: open_slot_def Let_def live_def r_def upt_0_2 seterr_def logev_def split: sysres.splits)
  show "unat (num (open_slot k fam sz a s)) \<le> Suc (unat (num s))"
    using n by (auto simp: open_slot_def Let_def)
qed

definition nc_opened :: "os \<Rightarrow> (nat \<Rightarrow> pollfd) \<Rightarrow> int \<Rightarrow> addrinfo list \<Rightarrow> conn" where
  "nc_opened k junk e0 cands =
     (let (ipv4, ipv6) = scan cands None None;
          s0 = nc_init junk e0;
          s1 = (case ipv6 of None \<Rightarrow> s0
                | Some a \<Rightarrow> open_slot k AF_INET6 sizeof_sockaddr_in6 a s0);
          s2 = (case ipv4 of None \<Rightarrow> s1
                | Some a \<Rightarrow> open_slot k AF_INET sizeof_sockaddr_in a s1)
      in s2\<lparr>idx := 0\<rparr>)"

lemma nc_setup_opened: "nc_setup k junk e0 cands = setup_loop k (nc_opened k junk e0 cands)"
  by (simp add: nc_setup_def nc_opened_def Let_def split: prod.splits)

definition wanted_sockets :: "addrinfo list \<Rightarrow> (int \<times> int \<times> int) list" where
  "wanted_sockets cands =
     map (\<lambda>a. (AF_INET6, ai_socktype a, ai_protocol a)) (first_of AF_INET6 cands) @
     map (\<lambda>a. (AF_INET, ai_socktype a, ai_protocol a)) (first_of AF_INET cands)"

definition wanted_connects :: "addrinfo list \<Rightarrow> (sockaddr \<times> nat) list" where
  "wanted_connects cands =
     map (\<lambda>a. (ai_addr a, sizeof_sockaddr_in6)) (first_of AF_INET6 cands) @
     map (\<lambda>a. (ai_addr a, sizeof_sockaddr_in)) (first_of AF_INET cands)"

lemma targets_append [simp]: "targets (xs @ ys) = targets xs @ targets ys"
  by (simp add: targets_def)

lemma nc_opened_post:
  fixes k junk e0 cands
  defines "q \<equiv> nc_opened k junk e0 cands"
  shows "wf q" and "sockfd q = - 1" and "idx q = 0"
    and "\<forall>e\<in>set (live q). fst e \<noteq> - 1"
    and "\<forall>e\<in>set (trace q). is_socket e"
    and "sock_args (trace q) = wanted_sockets cands"
    and "subseq (targets (live q)) (wanted_connects cands)"
proof -
  let ?w6 = "find (\<lambda>a. ai_family a = AF_INET6) cands"
  let ?w4 = "find (\<lambda>a. ai_family a = AF_INET) cands"
  define s0 where "s0 = nc_init junk e0"
  define s1 where "s1 = (case ?w6 of None \<Rightarrow> s0
                         | Some a \<Rightarrow> open_slot k AF_INET6 sizeof_sockaddr_in6 a s0)"
  define s2 where "s2 = (case ?w4 of None \<Rightarrow> s1
                         | Some a \<Rightarrow> open_slot k AF_INET sizeof_sockaddr_in a s1)"
  have q: "q = s2\<lparr>idx := 0\<rparr>"
    by (simp add: q_def nc_opened_def scan_find s0_def s1_def s2_def Let_def split: option.splits)
  have i0: "wf s0" "unat (num s0) < 2" "num s0 = 0"
    by (simp_all add: s0_def nc_init_post)
  note os1 = open_slot_post [OF i0(1) i0(2), where k = k and fam = AF_INET6 and sz = sizeof_sockaddr_in6]
  have p1c: "wf s1 \<and> unat (num s1) < 2 \<and> sockfd s1 = - 1
      \<and> (\<forall>e\<in>set (live s1). fst e \<noteq> - 1) \<and> (\<forall>e\<in>set (trace s1). is_socket e)
      \<and> sock_args (trace s1) = map (\<lambda>a. (AF_INET6, ai_socktype a, ai_protocol a)) (first_of AF_INET6 cands)
      \<and> subseq (targets (live s1)) (map (\<lambda>a. (ai_addr a, sizeof_sockaddr_in6)) (first_of AF_INET6 cands))"
  proof (cases ?w6)
    case None
    then have "s1 = s0" by (simp add: s1_def)
    then show ?thesis
      using None by (simp add: s0_def nc_init_post first_of_def)
  next
    case (Some a)
    then have e: "s1 = open_slot k AF_INET6 sizeof_sockaddr_in6 a s0" by (simp add: s1_def)
    show ?thesis
      unfolding e using os1 [where a = a] i0(3) Some
      by (simp add: s0_def nc_init_post first_of_def)
  qed
  then have p1: "wf s1" "unat (num s1) < 2" "sockfd s1 = - 1"
    "\<forall>e\<in>set (live s1). fst e \<noteq> - 1" "\<forall>e\<in>set (trace s1). is_socket e"
    "sock_args (trace s1) = map (\<lambda>a. (AF_INET6, ai_socktype a, ai_protocol a)) (first_of AF_INET6 cands)"
    "subseq (targets (live s1)) (map (\<lambda>a. (ai_addr a, sizeof_sockaddr_in6)) (first_of AF_INET6 cands))"
    by simp_all
  note os2 = open_slot_post [OF p1(1) p1(2), where k = k and fam = AF_INET and sz = sizeof_sockaddr_in]
  have p2: "wf s2 \<and> sockfd s2 = - 1 \<and> (\<forall>e\<in>set (live s2). fst e \<noteq> - 1)
      \<and> (\<forall>e\<in>set (trace s2). is_socket e)
      \<and> sock_args (trace s2) = wanted_sockets cands
      \<and> subseq (targets (live s2)) (wanted_connects cands)"
  proof (cases ?w4)
    case None
    then have "s2 = s1" by (simp add: s2_def)
    then show ?thesis
      using None p1 by (simp add: first_of_def wanted_sockets_def wanted_connects_def)
  next
    case (Some a)
    then have e: "s2 = open_slot k AF_INET sizeof_sockaddr_in a s1" by (simp add: s2_def)
    show ?thesis
      unfolding e using os2 [where a = a] p1 Some
      by (auto simp: first_of_def wanted_sockets_def wanted_connects_def
               intro: list_emb_append_mono subseq_rev_drop_many)
  qed
  show "wf q" "sockfd q = - 1" "idx q = 0" "\<forall>e\<in>set (live q). fst e \<noteq> - 1"
    "\<forall>e\<in>set (trace q). is_socket e" "sock_args (trace q) = wanted_sockets cands"
    "subseq (targets (live q)) (wanted_connects cands)"
    using p2 by (simp_all add: q)
qed

lemma out_label_post:
  assumes "wf s"
  shows "\<exists>s' evs. out_label k s = (Returns (sockfd s), s') \<and> trace s' = trace s @ evs
          \<and> (\<forall>e\<in>set evs. is_close e)
          \<and> (\<forall>j<unat (num s). fd (pfd s ! j) \<noteq> sockfd s
                 \<longrightarrow> (\<exists>r. EvClose (fd (pfd s ! j)) r \<in> set evs))"
proof -
  have "wf (s\<lparr>idx := 0\<rparr>)" using assms by simp
  from close_loop_post [OF this, of k] obtain s' evs
    where c: "close_loop k (s\<lparr>idx := 0\<rparr>) = Through s'" "trace s' = trace s @ evs"
      "\<forall>e\<in>set evs. is_close e" "sockfd s' = sockfd s"
      "\<forall>j. j < unat (num s) \<and> fd (pfd s ! j) \<noteq> sockfd s
           \<longrightarrow> (\<exists>r. EvClose (fd (pfd s ! j)) r \<in> set evs)"
    by auto
  show ?thesis
    using c by (intro exI [of _ "s'\<lparr>errno := errno s\<rparr>"] exI [of _ evs])
               (simp add: out_label_def Let_def)
qed

lemma got_one_post:
  assumes "wf s"
  shows "\<exists>evs. trace (snd (got_one k s)) = trace s @ evs
          \<and> (\<forall>e\<in>set evs. is_fcntl e \<or> is_close e)
          \<and> (unat (idx s) < 2 \<longrightarrow>
                fst (got_one k s) =
                  Returns (if fst (set_nonblock k (fd (pfd s ! unat (idx s))) False s)
                           then fd (pfd s ! unat (idx s)) else sockfd s)
                \<and> (\<not> fst (set_nonblock k (fd (pfd s ! unat (idx s))) False s) \<longrightarrow>
                     (\<forall>j<unat (num s). fd (pfd s ! j) \<noteq> sockfd s
                        \<longrightarrow> (\<exists>r. EvClose (fd (pfd s ! j)) r \<in> set evs))))"
proof (cases "unat (idx s) < 2")
  case False
  then have "got_one k s = (Undefined, s)" by (simp add: got_one_def MAX_PROTOS_def)
  then show ?thesis using False by (intro exI [of _ "[]"]) simp
next
  case True
  let ?d = "fd (pfd s ! unat (idx s))"
  obtain ok s1 where nb: "set_nonblock k ?d False s = (ok, s1)"
    by (cases "set_nonblock k ?d False s")
  note fr = set_nonblock_frame [OF nb]
  from set_nonblock_trace [OF nb] obtain ev1
    where ev1: "trace s1 = trace s @ ev1" "\<forall>e\<in>set ev1. is_fcntl e" by blast
  define s2 where "s2 = (if ok then s1\<lparr>sockfd := ?d\<rparr> else s1)"
  have g: "got_one k s = out_label k s2"
    using True nb by (simp add: got_one_def MAX_PROTOS_def s2_def)
  have fr2: "wf s2" "trace s2 = trace s1" "num s2 = num s" "pfd s2 = pfd s"
    "sockfd s2 = (if ok then ?d else sockfd s)"
    using assms fr by (simp_all add: s2_def)
  from out_label_post [OF fr2(1), of k] obtain s' ev2
    where o: "out_label k s2 = (Returns (sockfd s2), s')" "trace s' = trace s2 @ ev2"
      "\<forall>e\<in>set ev2. is_close e"
      "\<forall>j<unat (num s2). fd (pfd s2 ! j) \<noteq> sockfd s2
                 \<longrightarrow> (\<exists>r. EvClose (fd (pfd s2 ! j)) r \<in> set ev2)"
    by blast
  show ?thesis
    unfolding g using o ev1 fr2 nb
    by (intro exI [of _ "ev1 @ ev2"]) auto
qed

definition finish :: "os \<Rightarrow> flow \<Rightarrow> outcome \<times> conn" where
  "finish k R = (case R of
                   Through s' \<Rightarrow> got_one k s'
                 | GotOne s' \<Rightarrow> got_one k s'
                 | Out s' \<Rightarrow> out_label k s'
                 | MemFault s' \<Rightarrow> (Undefined, s'))"

lemma net_connect_finish:
  "net_connect k junk e0 fuel cands =
     (case setup_loop k (nc_opened k junk e0 cands) of
        Through s \<Rightarrow> map_option (finish k) (poll_loop k fuel s)
      | GotOne s \<Rightarrow> Some (finish k (GotOne s))
      | Out s \<Rightarrow> Some (finish k (Out s))
      | MemFault s \<Rightarrow> Some (finish k (MemFault s)))"
  by (auto simp: net_connect_def nc_setup_opened finish_def split: flow.splits option.splits)

lemma finish_trace:
  assumes "wf (st R)"
  shows "\<exists>evs. trace (snd (finish k R)) = trace (st R) @ evs
               \<and> (\<forall>e\<in>set evs. is_fcntl e \<or> is_close e)"
proof (cases R)
  case (Through s')
  then show ?thesis using got_one_post [of s' k] assms by (auto simp: finish_def)
next
  case (GotOne s')
  then show ?thesis using got_one_post [of s' k] assms by (auto simp: finish_def)
next
  case (Out s')
  then show ?thesis using out_label_post [of s' k] assms by (fastforce simp: finish_def)
next
  case (MemFault s')
  then show ?thesis by (simp add: finish_def)
qed

lemma net_connect_phases:
  fixes k junk e0 cands
  defines "q \<equiv> nc_opened k junk e0 cands"
  assumes run: "net_connect k junk e0 fuel cands = Some (res, s)"
  shows "\<exists>ev1 ev2. trace s = trace q @ ev1 @ ev2
          \<and> body_trace q (setup_loop k q) ev1
          \<and> subseq (conn_args ev1) (targets (live q))
          \<and> (\<forall>e\<in>set ev2. is_wait e \<or> is_fcntl e \<or> is_close e)
          \<and> (\<forall>g. setup_loop k q = GotOne g \<longrightarrow> (\<forall>e\<in>set ev2. \<not> is_poll e))"
proof -
  note qp = nc_opened_post [of k junk e0 cands, folded q_def]
  have le: "idx q \<le> num q" using qp(3) by simp
  from setup_loop_post [OF qp(1) le, of k] obtain ev1
    where bt: "body_trace q (setup_loop k q) ev1"
      and sub: "subseq (conn_args ev1) (targets (live q))"
      and wf1: "wf (st (setup_loop k q))"
    using qp(3) by auto
  have tr1: "trace (st (setup_loop k q)) = trace q @ ev1"
    using bt by (simp add: body_trace_def)
  show ?thesis
  proof (cases "setup_loop k q")
    case (Through s1)
    then obtain R where pl: "poll_loop k fuel s1 = Some R" and fin: "finish k R = (res, s)"
      using run by (auto simp: net_connect_finish q_def [symmetric])
    have "wf s1" using wf1 Through by simp
    from poll_loop_post [OF this pl] obtain evw
      where w: "wait_trace s1 R evw" "wf (st R)" by blast
    from finish_trace [OF w(2), of k] obtain evf
      where f: "trace s = trace (st R) @ evf" "\<forall>e\<in>set evf. is_fcntl e \<or> is_close e"
      using fin by auto
    have "trace s = trace q @ ev1 @ (evw @ evf)"
      using f(1) w(1) tr1 Through by (simp add: wait_trace_def)
    moreover have "\<forall>e\<in>set (evw @ evf). is_wait e \<or> is_fcntl e \<or> is_close e"
      using f(2) w(1) by (auto simp: wait_trace_def)
    ultimately show ?thesis using bt sub Through
      by (intro exI [of _ ev1] exI [of _ "evw @ evf"]) simp
  next
    case (GotOne g)
    then have fin: "finish k (GotOne g) = (res, s)"
      using run by (simp add: net_connect_finish q_def [symmetric])
    have "wf (st (GotOne g))" using wf1 GotOne by simp
    from finish_trace [OF this, of k] obtain evf
      where f: "trace s = trace g @ evf" "\<forall>e\<in>set evf. is_fcntl e \<or> is_close e"
      using fin by auto
    have "trace s = trace q @ ev1 @ evf" using f(1) tr1 GotOne by simp
    moreover have "\<forall>e\<in>set evf. \<not> is_poll e" using f(2) by auto
    ultimately show ?thesis using bt sub f(2)
      by (intro exI [of _ ev1] exI [of _ evf]) simp
  next
    case (Out s')
    then show ?thesis using bt by (simp add: body_trace_def)
  next
    case (MemFault s')
    then have "s = s'"
      using run by (simp add: net_connect_finish q_def [symmetric] finish_def)
    then have "trace s = trace q @ ev1 @ []" using tr1 MemFault by simp
    then show ?thesis using bt sub MemFault
      by (intro exI [of _ ev1] exI [of _ "[]"]) simp
  qed
qed

text \<open>
  The state in which \<^verbatim>\<open>net_connect\<close> jumps to \<^verbatim>\<open>got_one\<close> because a candidate has won:
  after a \<^verbatim>\<open>connect\<close> that returned 0, or after a \<^verbatim>\<open>getsockopt\<close> that reported no
  pending error. \<open>None\<close> if the call takes no such jump.
\<close>

definition winner :: "os \<Rightarrow> (nat \<Rightarrow> pollfd) \<Rightarrow> int \<Rightarrow> nat \<Rightarrow> addrinfo list \<Rightarrow> conn option" where
  "winner k junk e0 fuel cands =
     (case nc_setup k junk e0 cands of
        Through s \<Rightarrow> (case poll_loop k fuel s of
                        None \<Rightarrow> None
                      | Some (Through s') \<Rightarrow> None
                      | Some (GotOne g) \<Rightarrow> Some g
                      | Some (Out s') \<Rightarrow> None
                      | Some (MemFault s') \<Rightarrow> None)
      | GotOne g \<Rightarrow> Some g
      | Out s \<Rightarrow> None
      | MemFault s \<Rightarrow> None)"

lemma socket_not_connect [simp]: "is_socket e \<Longrightarrow> \<not> is_connect e" "is_socket e \<Longrightarrow> \<not> is_poll e"
  by (cases e; simp)+

lemma is_poll_iff: "is_poll e \<longleftrightarrow> (\<exists>p r. e = EvPoll p r)"
  by (cases e) simp_all

lemma last_if_not_butlast:
  assumes "x \<notin> set (butlast xs)" and "x \<in> set xs"
  shows "last xs = x"
proof -
  have "xs \<noteq> []" using assms(2) by auto
  then have "xs = butlast xs @ [last xs]" by simp
  then have "set xs = set (butlast xs) \<union> {last xs}"
    by (metis Un_insert_right list.set(1) list.set(2) set_append sup_bot.right_neutral)
  then show ?thesis using assms by auto
qed

text \<open>
  The closing loop leaves \<^verbatim>\<open>sockfd\<close> alone, so a winner that was made blocking again is
  not closed.
\<close>

lemma close_loop_only_others:
  "wf s \<Longrightarrow> close_loop k s = Through s' \<Longrightarrow> trace s' = trace s @ evs \<Longrightarrow>
     \<forall>r. EvClose (sockfd s) r \<notin> set evs"
proof (induction k s arbitrary: evs rule: close_loop.induct)
  case (1 k s)
  show ?case
  proof (cases "idx s < num s")
    case False
    then have "close_loop k s = Through s" by (subst close_loop.simps) simp
    then show ?thesis using "1.prems" by simp
  next
    case True
    note kept = kept_state [OF "1.prems"(1) True]
    let ?d = "fd (pfd s ! unat (idx s))"
    define s1 where "s1 = (if ?d \<noteq> sockfd s
                           then seterr (sys_close k (now s) ?d)
                                  (logev (EvClose ?d (sys_close k (now s) ?d)) s)
                           else s)"
    let ?n = "s1\<lparr>idx := idx s1 + 1\<rparr>"
    let ?ev1 = "(if ?d \<noteq> sockfd s then [EvClose ?d (sys_close k (now s) ?d)] else [])"
    have fr: "wf ?n" "sockfd ?n = sockfd s" "trace ?n = trace s @ ?ev1"
      using "1.prems"(1) by (simp_all add: s1_def)
    have loop: "close_loop k s = close_loop k ?n"
      using True kept(3)
      by (subst close_loop.simps) (simp add: MAX_PROTOS_def Let_def s1_def)
    have nm: "\<not> MAX_PROTOS \<le> unat (idx s)" using kept(3) by (simp add: MAX_PROTOS_def)
    note IH = "1.IH" [OF True nm refl refl, unfolded Let_def, folded s1_def]
    from close_loop_post [OF fr(1), of k] obtain ev2
      where e2: "trace s' = trace ?n @ ev2"
      using "1.prems"(2) loop by auto
    have "\<forall>r. EvClose (sockfd ?n) r \<notin> set ev2"
      using IH [OF fr(1) _ e2] "1.prems"(2) loop by simp
    moreover have "evs = ?ev1 @ ev2" using e2 fr(3) "1.prems"(3) by simp
    ultimately show ?thesis using fr(2) by auto
  qed
qed

lemma got_one_keeps_winner:
  assumes "wf s" and "unat (idx s) < 2"
    and "fst (set_nonblock k (fd (pfd s ! unat (idx s))) False s)"
    and "trace (snd (got_one k s)) = trace s @ evs"
  shows "\<forall>r. EvClose (fd (pfd s ! unat (idx s))) r \<notin> set evs"
proof -
  let ?d = "fd (pfd s ! unat (idx s))"
  obtain ok s1 where nb: "set_nonblock k ?d False s = (ok, s1)"
    by (cases "set_nonblock k ?d False s")
  have ok: ok using assms(3) nb by simp
  note fr = set_nonblock_frame [OF nb]
  from set_nonblock_trace [OF nb] obtain ev1
    where ev1: "trace s1 = trace s @ ev1" "\<forall>e\<in>set ev1. is_fcntl e" by blast
  let ?s2 = "s1\<lparr>sockfd := ?d\<rparr>"
  have g: "got_one k s = out_label k ?s2"
    using assms(2) nb ok by (simp add: got_one_def MAX_PROTOS_def)
  have wf2: "wf (?s2\<lparr>idx := 0\<rparr>)" using assms(1) fr by simp
  from close_loop_post [OF wf2, of k] obtain s' ev2
    where c: "close_loop k (?s2\<lparr>idx := 0\<rparr>) = Through s'"
      "trace s' = trace (?s2\<lparr>idx := 0\<rparr>) @ ev2"
    by blast
  have no: "\<forall>r. EvClose ?d r \<notin> set ev2"
    using close_loop_only_others [OF wf2 c(1) c(2)] by simp
  have "trace (snd (got_one k s)) = trace s @ ev1 @ ev2"
    using c ev1 by (simp add: g out_label_def Let_def)
  then have "evs = ev1 @ ev2" using assms(4) by simp
  moreover have "\<forall>r. EvClose ?d r \<notin> set ev1"
    using ev1(2) by (auto dest: bspec)
  ultimately show ?thesis using no by auto
qed

section \<open>Two runs with a connect that succeeds at once\<close>

lemma sync_run:
  "net_connect sync_os junk_bad 0 5 [cand6, cand4] = Some (Returns 3, sync_final)"
  apply (simp add: eval_simps sync_os_def sync_final_def)
  apply (subst loop_simps, simp add: eval_simps sync_os_def sync_final_def)+
  done

lemma stuck_run:
  "net_connect sync_stuck_os junk_bad 0 5 [cand4] = Some (Returns (- 1), stuck_final)"
  apply (simp add: eval_simps sync_stuck_os_def stuck_final_def)
  apply (subst loop_simps, simp add: eval_simps sync_stuck_os_def stuck_final_def)+
  done

lemma sync_run3:
  "net_connect sync_os junk_bad 0 5 [cand4, cand6, cand4b] = Some (Returns 3, sync_final)"
  apply (simp add: eval_simps sync_os_def sync_final_def)
  apply (subst loop_simps, simp add: eval_simps sync_os_def sync_final_def)+
  done

section \<open>Which candidates are tried\<close>

text \<open>
  Claim C7: for every candidate sequence \<^verbatim>\<open>net_connect\<close> attempts at most one IPv4 and
  one IPv6 candidate, the first of each family in input order, later ones of the same
  family being ignored; and when both families are present the IPv6 socket is created (and
  connected) before the IPv4 one.

  In a call that returns, or ends in undefined behaviour, the \<^verbatim>\<open>socket\<close> calls made are
  exactly one for the first IPv6 candidate, if there is one, followed by one for the first
  IPv4 candidate, if there is one, with the type and protocol of that candidate; and the
  \<^verbatim>\<open>connect\<close> calls made go, in this order and none twice, to the address of the first
  IPv6 candidate and to the address of the first IPv4 candidate, or to some of them.
\<close>

theorem C7_first_candidate_of_each_family:
  assumes "net_connect k junk e0 fuel cands = Some (res, s)"
  shows "sock_args (trace s) = wanted_sockets cands
         \<and> subseq (conn_args (trace s)) (wanted_connects cands)"
proof -
  let ?q = "nc_opened k junk e0 cands"
  note qp = nc_opened_post [of k junk e0 cands]
  from net_connect_phases [OF assms] obtain ev1 ev2
    where tr: "trace s = trace ?q @ ev1 @ ev2"
      and bt: "body_trace ?q (setup_loop k ?q) ev1"
      and sub: "subseq (conn_args ev1) (targets (live ?q))"
      and k2: "\<forall>e\<in>set ev2. is_wait e \<or> is_fcntl e \<or> is_close e"
    by blast
  have k1: "\<forall>e\<in>set ev1. is_fcntl e \<or> is_connect e" using bt by (simp add: body_trace_def)
  have "sock_args ev1 = []" using k1 by (intro sock_args_none) auto
  moreover have "sock_args ev2 = []" using k2 by (intro sock_args_none) auto
  ultimately have socks: "sock_args (trace s) = wanted_sockets cands"
    using qp(6) by (simp add: tr)
  have "conn_args (trace ?q) = []" using qp(5) by (intro conn_args_none) auto
  moreover have "conn_args ev2 = []" using k2 by (intro conn_args_none) auto
  ultimately have "conn_args (trace s) = conn_args ev1" by (simp add: tr)
  then have "subseq (conn_args (trace s)) (wanted_connects cands)"
    using sub qp(7) by (auto intro: subseq_order.trans)
  with socks show ?thesis by simp
qed

theorem C7_first_candidate_of_each_family_witness:
  "net_connect sync_os junk_bad 0 5 [cand4, cand6, cand4b] = Some (Returns 3, sync_final)
   \<and> sock_args (trace sync_final) = wanted_sockets [cand4, cand6, cand4b]
   \<and> subseq (conn_args (trace sync_final)) (wanted_connects [cand4, cand6, cand4b])
   \<and> wanted_sockets [cand4, cand6, cand4b] = [(10, 1, 6), (2, 1, 6)]"
  using C7_first_candidate_of_each_family [OF sync_run3] sync_run3
  by (simp add: sync_final_def)

section \<open>A connect that succeeds at once\<close>

text \<open>
  Claim C6, as stated: if a non-blocking \<^verbatim>\<open>connect\<close> succeeds synchronously,
  \<^verbatim>\<open>net_connect\<close> returns that candidate's socket without ever calling \<^verbatim>\<open>poll\<close>.

  It does not always return the socket: the socket is first made blocking again, and when
  that fails the call returns \<open>-1\<close>. Below \<^verbatim>\<open>connect\<close> on socket 4 returns 0, the
  \<^verbatim>\<open>F_SETFL\<close> that follows fails, and the call closes socket 4 and returns \<open>-1\<close>.
\<close>

theorem C6_synchronous_connect_may_return_failure:
  "observed (net_connect sync_stuck_os junk_bad 0 5 [cand4]) =
     Some (Returns (- 1), 1,
       [EvSocket 2 1 6 (Ok 4), EvGetfl 4 (Ok 2), EvSetfl 4 2050 (Ok 0),
        EvConnect 4 [127, 0, 0, 1] 16 (Ok 0),
        EvGetfl 4 (Ok 2), EvSetfl 4 2 (Err 1), EvClose 4 (Ok 0)])"
  apply (simp add: eval_simps sync_stuck_os_def)
  apply (subst loop_simps, simp add: eval_simps sync_stuck_os_def)+
  done

text \<open>
  Claim C6, amended: if a \<^verbatim>\<open>connect\<close> of the call returned 0, then \<^verbatim>\<open>poll\<close> is never
  called; if making the descriptor of that \<^verbatim>\<open>connect\<close> blocking again succeeds, the call
  returns it and has not closed it; if that fails, the call closes it and returns \<open>-1\<close>.
  The call needs no fuel: it returns the same with none. The \<^verbatim>\<open>connect\<close> that returned
  0 is the last call before the jump to \<^verbatim>\<open>got_one\<close>, taken in the state \<open>g\<close>; \<open>evs\<close>
  are the calls made after it.
\<close>

theorem C6_synchronous_connect:
  assumes run: "net_connect k junk e0 fuel cands = Some (res, s)"
    and mem: "EvConnect d a l r \<in> set (trace s)" and ret: "retval r = 0"
  shows "(\<forall>p pr. EvPoll p pr \<notin> set (trace s))
       \<and> net_connect k junk e0 0 cands = Some (res, s)
       \<and> (\<exists>g evs. nc_setup k junk e0 cands = GotOne g
              \<and> last (trace g) = EvConnect d a l r
              \<and> trace s = trace g @ evs
              \<and> res = Returns (if fst (set_nonblock k d False g) then d else - 1)
              \<and> (\<not> fst (set_nonblock k d False g) \<longrightarrow> (\<exists>rc. EvClose d rc \<in> set evs))
              \<and> (fst (set_nonblock k d False g) \<longrightarrow> (\<forall>rc. EvClose d rc \<notin> set evs)))"
proof -
  let ?q = "nc_opened k junk e0 cands"
  let ?e = "EvConnect d a l r"
  note qp = nc_opened_post [of k junk e0 cands]
  have le: "idx ?q \<le> num ?q" using qp(3) by simp
  from net_connect_phases [OF run] obtain ev1 ev2
    where tr: "trace s = trace ?q @ ev1 @ ev2"
      and bt: "body_trace ?q (setup_loop k ?q) ev1"
      and k2: "\<forall>e\<in>set ev2. is_wait e \<or> is_fcntl e \<or> is_close e"
      and np: "\<forall>g. setup_loop k ?q = GotOne g \<longrightarrow> (\<forall>e\<in>set ev2. \<not> is_poll e)"
    by blast
  have ok: "conn_ok ?e" using ret by simp
  have "?e \<notin> set (trace ?q)" using qp(5) by auto
  moreover have "?e \<notin> set ev2" using k2 by auto
  ultimately have in1: "?e \<in> set ev1" using mem by (simp add: tr)
  obtain g where g: "setup_loop k ?q = GotOne g"
    using bt in1 ok by (cases "setup_loop k ?q") (auto simp: body_trace_def)
  have b: "ev1 \<noteq> []" "\<forall>e\<in>set (butlast ev1). \<not> conn_ok e"
    "\<exists>a l r. last ev1 = EvConnect (fd (pfd g ! unat (idx g))) a l r"
    "trace g = trace ?q @ ev1" "\<forall>e\<in>set ev1. is_fcntl e \<or> is_connect e"
    using bt g by (simp_all add: body_trace_def)
  have "?e \<notin> set (butlast ev1)" using b(2) ok by blast
  then have last1: "last ev1 = ?e"
    using in1 by (rule last_if_not_butlast)
  then have d: "fd (pfd g ! unat (idx g)) = d" using b(3) by auto
  have lastg: "last (trace g) = ?e" using b(1) b(4) last1 by simp
  from setup_loop_post [OF qp(1) le, of k]
  have gp: "wf g" "sockfd g = - 1" "idx g < num g" "set (live g) \<subseteq> set (live ?q)"
    using g qp(2) by auto
  have i2: "unat (idx g) < 2" using kept_state(3) [OF gp(1) gp(3)] .
  have il: "unat (idx g) < unat (num g)" using gp(3) by (simp add: word_less_nat_alt)
  then have "live g ! unat (idx g) \<in> set (live g)" by simp
  then have "fst (live g ! unat (idx g)) \<noteq> - 1" using gp(4) qp(4) by blast
  then have dn: "d \<noteq> - 1" using il d by (simp add: live_nth)
  have fin: "got_one k g = (res, s)"
    using run g by (simp add: net_connect_finish finish_def)
  from got_one_post [OF gp(1), of k] obtain evs
    where ge: "trace (snd (got_one k g)) = trace g @ evs"
      "fst (got_one k g) = Returns (if fst (set_nonblock k d False g) then d else - 1)"
      "\<not> fst (set_nonblock k d False g) \<longrightarrow>
         (\<forall>j<unat (num g). fd (pfd g ! j) \<noteq> sockfd g
            \<longrightarrow> (\<exists>r. EvClose (fd (pfd g ! j)) r \<in> set evs))"
    using i2 d gp(2) by auto
  have trs: "trace s = trace g @ evs" using ge(1) fin by simp
  have res: "res = Returns (if fst (set_nonblock k d False g) then d else - 1)"
    using ge(2) fin by simp
  have closed: "\<not> fst (set_nonblock k d False g) \<longrightarrow> (\<exists>rc. EvClose d rc \<in> set evs)"
    using ge(3) il d dn gp(2) by auto
  have kept: "fst (set_nonblock k d False g) \<longrightarrow> (\<forall>rc. EvClose d rc \<notin> set evs)"
    using got_one_keeps_winner [OF gp(1) i2 _ ge(1)] d by auto
  have "\<forall>e\<in>set (trace s). \<not> is_poll e"
    using qp(5) b(5) np g by (auto simp: tr)
  then have "\<forall>p pr. EvPoll p pr \<notin> set (trace s)" by (auto simp: is_poll_iff)
  moreover have "net_connect k junk e0 0 cands = Some (res, s)"
    using g fin by (simp add: net_connect_finish finish_def)
  moreover have "\<exists>g evs. nc_setup k junk e0 cands = GotOne g
              \<and> last (trace g) = EvConnect d a l r
              \<and> trace s = trace g @ evs
              \<and> res = Returns (if fst (set_nonblock k d False g) then d else - 1)
              \<and> (\<not> fst (set_nonblock k d False g) \<longrightarrow> (\<exists>rc. EvClose d rc \<in> set evs))
              \<and> (fst (set_nonblock k d False g) \<longrightarrow> (\<forall>rc. EvClose d rc \<notin> set evs))"
    using g lastg trs res closed kept
    by (intro exI [of _ g] exI [of _ evs]) (simp add: nc_setup_opened)
  ultimately show ?thesis by blast
qed

theorem C6_synchronous_connect_witness:
  "net_connect sync_os junk_bad 0 5 [cand6, cand4] = Some (Returns 3, sync_final)
   \<and> EvConnect 3 [0, 0, 0, 1] 28 (Ok 0) \<in> set (trace sync_final)
   \<and> (\<exists>g evs. nc_setup sync_os junk_bad 0 [cand6, cand4] = GotOne g
           \<and> fst (set_nonblock sync_os 3 False g)
           \<and> trace sync_final = trace g @ evs
           \<and> (\<forall>rc. EvClose 3 rc \<notin> set evs))
   \<and> net_connect sync_stuck_os junk_bad 0 5 [cand4] = Some (Returns (- 1), stuck_final)
   \<and> EvConnect 4 [127, 0, 0, 1] 16 (Ok 0) \<in> set (trace stuck_final)
   \<and> (\<exists>g evs rc. nc_setup sync_stuck_os junk_bad 0 [cand4] = GotOne g
           \<and> trace stuck_final = trace g @ evs
           \<and> EvClose 4 rc \<in> set evs)
   \<and> retval (Ok 0) = 0"
proof -
  have mem: "EvConnect 3 [0, 0, 0, 1] 28 (Ok 0) \<in> set (trace sync_final)"
    by (simp add: sync_final_def)
  have mem2: "EvConnect 4 [127, 0, 0, 1] 16 (Ok 0) \<in> set (trace stuck_final)"
    by (simp add: stuck_final_def)
  have ret: "retval (Ok 0) = 0" by simp
  from C6_synchronous_connect [OF sync_run mem ret]
  have a: "\<exists>g evs. nc_setup sync_os junk_bad 0 [cand6, cand4] = GotOne g
           \<and> fst (set_nonblock sync_os 3 False g)
           \<and> trace sync_final = trace g @ evs
           \<and> (\<forall>rc. EvClose 3 rc \<notin> set evs)"
    by (auto split: if_splits)
  from C6_synchronous_connect [OF stuck_run mem2 ret]
  have b: "\<exists>g evs rc. nc_setup sync_stuck_os junk_bad 0 [cand4] = GotOne g
           \<and> trace stuck_final = trace g @ evs
           \<and> EvClose 4 rc \<in> set evs"
    by (auto split: if_splits)
  show ?thesis using a b sync_run stuck_run mem mem2 ret by simp
qed

lemma winner_state:
  assumes "winner k junk e0 fuel cands = Some g"
  shows "wf g" and "sockfd g = - 1" and "idx g < num g"
    and "fd (pfd g ! unat (idx g)) \<noteq> - 1"
    and "net_connect k junk e0 fuel cands = Some (got_one k g)"
    and "(\<exists>a l r. last (trace g) = EvConnect (fd (pfd g ! unat (idx g))) a l r \<and> retval r = 0)
         \<or> last (trace g) = EvGetsockopt (fd (pfd g ! unat (idx g))) (Gso 0)"
proof -
  let ?q = "nc_opened k junk e0 cands"
  let ?d = "fd (pfd g ! unat (idx g))"
  note qp = nc_opened_post [of k junk e0 cands]
  have le: "idx ?q \<le> num ?q" using qp(3) by simp
  from setup_loop_post [OF qp(1) le, of k] obtain ev1
    where bt: "body_trace ?q (setup_loop k ?q) ev1"
      and sp: "wf (st (setup_loop k ?q))" "sockfd (st (setup_loop k ?q)) = - 1"
        "set (live (st (setup_loop k ?q))) \<subseteq> set (live ?q)"
        "\<forall>s'. setup_loop k ?q = GotOne s' \<longrightarrow> idx s' < num s'"
    using qp(2) by auto
  have core: "wf g \<and> sockfd g = - 1 \<and> idx g < num g \<and> set (live g) \<subseteq> set (live ?q)
      \<and> net_connect k junk e0 fuel cands = Some (got_one k g)
      \<and> ((\<exists>a l r. last (trace g) = EvConnect ?d a l r \<and> retval r = 0)
           \<or> last (trace g) = EvGetsockopt ?d (Gso 0))"
  proof (cases "setup_loop k ?q")
    case (Through s1)
    then have pl: "poll_loop k fuel s1 = Some (GotOne g)"
      using assms
      by (auto simp: winner_def nc_setup_opened split: option.splits flow.splits)
    have w1: "wf s1" "sockfd s1 = - 1" "set (live s1) \<subseteq> set (live ?q)"
      using sp Through by simp_all
    from poll_loop_post [OF w1(1) pl] obtain evw
      where w: "wait_trace s1 (GotOne g) evw" "wf g" "sockfd g = sockfd s1"
        "set (live g) \<subseteq> set (live s1)" "idx g < num g"
      by auto
    have "last (trace g) = EvGetsockopt ?d (Gso 0)"
      using w(1) by (simp add: wait_trace_def)
    moreover have "net_connect k junk e0 fuel cands = Some (got_one k g)"
      using Through pl by (simp add: net_connect_finish finish_def)
    ultimately show ?thesis using w w1 by auto
  next
    case (GotOne g')
    then have gg: "g' = g" using assms by (simp add: winner_def nc_setup_opened)
    have b: "ev1 \<noteq> []" "conn_ok (last ev1)" "\<exists>a l r. last ev1 = EvConnect ?d a l r"
      "trace g = trace ?q @ ev1"
      using bt GotOne gg by (simp_all add: body_trace_def)
    have "\<exists>a l r. last (trace g) = EvConnect ?d a l r \<and> retval r = 0"
      using b by auto
    moreover have "net_connect k junk e0 fuel cands = Some (got_one k g)"
      using GotOne gg by (simp add: net_connect_finish finish_def)
    ultimately show ?thesis using sp GotOne gg by auto
  next
    case (Out s')
    then show ?thesis using assms by (simp add: winner_def nc_setup_opened)
  next
    case (MemFault s')
    then show ?thesis using assms by (simp add: winner_def nc_setup_opened)
  qed
  then show "wf g" "sockfd g = - 1" "idx g < num g"
    "net_connect k junk e0 fuel cands = Some (got_one k g)"
    "(\<exists>a l r. last (trace g) = EvConnect ?d a l r \<and> retval r = 0)
         \<or> last (trace g) = EvGetsockopt ?d (Gso 0)"
    by simp_all
  have "unat (idx g) < unat (num g)" using core by (simp add: word_less_nat_alt)
  then have "live g ! unat (idx g) \<in> set (live g)" by simp
  then have "live g ! unat (idx g) \<in> set (live ?q)" using core by auto
  then have "fst (live g ! unat (idx g)) \<noteq> - 1" using qp(4) by blast
  then show "?d \<noteq> - 1"
    using \<open>unat (idx g) < unat (num g)\<close> by (simp add: live_nth)
qed

lemma late_winner: "winner late_stuck_os junk_bad 0 5 [cand4] = Some late_won"
  apply (simp add: winner_def eval_simps late_stuck_os_def late_won_def)
  apply (subst loop_simps, simp add: eval_simps late_stuck_os_def late_won_def)+
  done

section \<open>A winner that stays non-blocking\<close>

text \<open>
  Claim C9: when a winning candidate is found but switching its socket back to blocking
  mode fails, \<^verbatim>\<open>net_connect\<close> treats the race as failed: it returns \<open>-1\<close> and closes the
  winning descriptor, so that no non-blocking descriptor is handed out.

  Here \<open>g\<close> is the state at the jump to \<^verbatim>\<open>got_one\<close>, whose last call is the successful
  \<^verbatim>\<open>connect\<close> or the \<^verbatim>\<open>getsockopt\<close> without pending error on the winner \<^verbatim>\<open>pfd[i].fd\<close>;
  the \<^verbatim>\<open>close\<close> of the winner is among the calls made after it.
\<close>

theorem C9_blocking_mode_not_restored:
  assumes win: "winner k junk e0 fuel cands = Some g"
    and stuck: "\<not> fst (set_nonblock k (fd (pfd g ! unat (idx g))) False g)"
  shows "(\<exists>s evs r. net_connect k junk e0 fuel cands = Some (Returns (- 1), s)
             \<and> trace s = trace g @ evs
             \<and> EvClose (fd (pfd g ! unat (idx g))) r \<in> set evs)
       \<and> ((\<exists>a l r. last (trace g) = EvConnect (fd (pfd g ! unat (idx g))) a l r \<and> retval r = 0)
           \<or> last (trace g) = EvGetsockopt (fd (pfd g ! unat (idx g))) (Gso 0))"
proof -
  let ?d = "fd (pfd g ! unat (idx g))"
  note ws = winner_state [OF win]
  have i2: "unat (idx g) < 2" using kept_state(3) [OF ws(1) ws(3)] .
  have il: "unat (idx g) < unat (num g)" using ws(3) by (simp add: word_less_nat_alt)
  from got_one_post [OF ws(1), of k] obtain evs
    where gp: "trace (snd (got_one k g)) = trace g @ evs"
      "fst (got_one k g) = Returns (- 1)"
      "\<forall>j<unat (num g). fd (pfd g ! j) \<noteq> sockfd g
           \<longrightarrow> (\<exists>r. EvClose (fd (pfd g ! j)) r \<in> set evs)"
    using i2 stuck ws(2) by auto
  obtain r where "EvClose ?d r \<in> set evs"
    using gp(3) il ws(2) ws(4) by auto
  moreover have "net_connect k junk e0 fuel cands = Some (Returns (- 1), snd (got_one k g))"
    using ws(5) gp(2) by (cases "got_one k g") simp
  ultimately show ?thesis using gp(1) ws(6) by blast
qed

theorem C9_blocking_mode_not_restored_witness:
  "winner late_stuck_os junk_bad 0 5 [cand4] = Some late_won
   \<and> fst (set_nonblock late_stuck_os 4 False late_won) = False
   \<and> (\<exists>s evs r. net_connect late_stuck_os junk_bad 0 5 [cand4] = Some (Returns (- 1), s)
          \<and> trace s = trace late_won @ evs \<and> EvClose 4 r \<in> set evs)"
proof -
  have d: "fd (pfd late_won ! unat (idx late_won)) = 4"
    by (simp add: late_won_def)
  have stuck: "\<not> fst (set_nonblock late_stuck_os (fd (pfd late_won ! unat (idx late_won))) False
                       late_won)"
    unfolding d
    by (simp add: late_won_def set_nonblock_def late_stuck_os_def quiet_os_def logev_def
                  seterr_def now_def Let_def)
  from C9_blocking_mode_not_restored [OF late_winner stuck]
  show ?thesis using late_winner stuck unfolding d by simp
qed

end
